theory Spec2Isabelle
  imports Complex_Main "HOL-Library.Word"
begin

section \<open>The camera callback example: frame ring, latest-frame slot, statistics, streaming\<close>

text \<open>
  A shallow embedding of \<^verbatim>\<open>camera_example1_callback.c\<close>: the static frame ring and the
  per-frame callback \<^verbatim>\<open>processCameraData\<close>. The callback is one C function; its stages are
  embedded one definition per stage, in source order, and composed again at the end.

  Machine integers keep their width: \<^verbatim>\<open>uint8_t\<close>, \<^verbatim>\<open>uint32_t\<close>/\<^verbatim>\<open>uint\<close> and
  \<^verbatim>\<open>size_t\<close>/\<^verbatim>\<open>unsigned long\<close> are words of 8, 32 and 64 bits (the target is an LP64
  platform, where the length prefix sent on the socket has 8 bytes). The ring indices
  \<^verbatim>\<open>buffer_head\<close> and \<^verbatim>\<open>buffer_count\<close> are C \<^verbatim>\<open>int\<close>s that only ever hold 0..5; they
  are natural numbers here, and the only decrement is guarded by \<open>buffer_count = MAX_FRAMES\<close>.
\<close>

type_synonym u8 = "8 word"
type_synonym u32 = "32 word"
type_synonym size_t = "64 word"

subsection \<open>Data model\<close>

text \<open>
  \<^verbatim>\<open>camera_frametype_t\<close> comes from \<^verbatim>\<open>camera/camera_api.h\<close>: the four tags the program
  names, and every other tag of the enumeration kept by its integer value.
\<close>

datatype camera_frametype_t =
    CAMERA_FRAMETYPE_YCBYCR
  | CAMERA_FRAMETYPE_CBYCRY
  | CAMERA_FRAMETYPE_RGB8888
  | CAMERA_FRAMETYPE_BGR8888
  | CAMERA_FRAMETYPE_OTHER int

text \<open>
  \<^verbatim>\<open>camera_framedesc_t\<close> is a union of per-layout descriptors; the program reads the
  member that belongs to the tag, and of it only width, height and stride.
\<close>

record camera_framedesc_t =
  fd_width :: u32
  fd_height :: u32
  fd_stride :: u32

text \<open>
  \<^verbatim>\<open>framebuf\<close> is a bare pointer in C. Here it is the list of bytes the driver handed over;
  a read at or past its end is undefined behaviour in C and is \<open>None\<close> in every function
  below that reads the buffer.
\<close>

record camera_buffer_t =
  frametype :: camera_frametype_t
  framedesc :: camera_framedesc_t
  framebuf :: "u8 list"

text \<open>
  Pointers to mappings: null, \<^verbatim>\<open>MAP_FAILED\<close>, or an address \<^verbatim>\<open>mmap\<close> returned. Such an
  address is the start of a page, and the program does no arithmetic on it; the model names
  it by its page number. \<^verbatim>\<open>munmap\<close> does not change the variable that holds the address,
  so an address may be stale: nothing, or something else, may be mapped there.
\<close>

datatype map_ptr = NullPtr | MapFailed | MapAddr nat

text \<open>
  A ring slot. \<open>mapped_data\<close> is the pointer to the slot's mapping; what is read through
  it is whatever the address space holds at that address when it is read.
\<close>

record Frame =
  f_frametype :: camera_frametype_t
  f_framedesc :: camera_framedesc_t
  shm_name :: "string option"
  mapped_data :: map_ptr
  data_size :: size_t

record Metadata =
  m_frametype :: camera_frametype_t
  m_width :: u32
  m_height :: u32
  m_size :: size_t

definition MAX_FRAMES :: nat where
  "MAX_FRAMES = 5"

definition NUM_CHANNELS :: nat where
  "NUM_CHANNELS = 3"

text \<open>The name space of POSIX shared-memory objects: name to contents.\<close>

type_synonym shm_space = "string \<Rightarrow> u8 list option"

text \<open>
  The pages of the process that hold shared-memory mappings: page number to the bytes of
  the mapped object that lie in the page (the rest of the page reads as zero), or \<open>None\<close>
  for a page where no such mapping is. The program maps an object once, right after
  creating or resizing it, writes it once through that mapping, and never opens a name
  whose object is still mapped; so the bytes of a page and the contents behind the name
  are both kept, and written together.
\<close>

type_synonym address_space = "nat \<Rightarrow> u8 list option"

definition PAGESIZE :: nat where
  \<comment> \<open>the page size of the target; nothing but the evaluation of concrete runs depends on
      its value\<close>
  "PAGESIZE = 4096"

text \<open>What the statistics stage prints: the unsupported-frametype line, or the three
  accumulated channel sums with the three divisors they are divided by.\<close>

datatype stats =
    Frametype_not_supported camera_frametype_t
  | Channel_averages "nat list" "u32 list"

text \<open>
  The file's static variables, with the objects they refer to: the shared-memory name
  space, the address space, the payloads handed to \<^verbatim>\<open>send\<close> on the socket (one entry
  per call, in order), and the last status line written to the terminal.
\<close>

record globals =
  frame_buffer :: "Frame list"
  buffer_head :: nat
  buffer_count :: nat
  metadata_mapped :: Metadata
  latest_shm_name :: "string option"
  latest_mapped :: map_ptr
  latest_size :: size_t
  shm :: shm_space
  vm :: address_space
  sock_sent :: "u8 list list"
  console :: "stats option"

text \<open>
  The outcomes of the system calls of one callback, which the program cannot control;
  \<open>mmap_page\<close> is the page at which the kernel places the mapping when \<^verbatim>\<open>mmap\<close> succeeds.
  \<^verbatim>\<open>strdup\<close> is taken to succeed. The image codec (libjpeg behind
  \<^verbatim>\<open>compress_to_jpeg\<close>) is a parameter: from the packed buffer and the dimensions to the
  compressed bytes, or \<open>None\<close> when \<^verbatim>\<open>jpeg_data\<close> stays null. \<open>heap_junk\<close> is the
  indeterminate content of freshly allocated memory.
\<close>

record shm_calls =
  shm_open_ok :: bool
  ftruncate_ok :: bool
  mmap_ok :: bool
  mmap_page :: nat

record sys_env =
  frame_calls :: shm_calls
  latest_calls :: shm_calls
  name_calls :: shm_calls
  malloc_ok :: bool
  heap_junk :: "nat \<Rightarrow> u8"
  jpeg_codec :: "u8 list \<Rightarrow> u32 \<Rightarrow> u32 \<Rightarrow> u8 list option"
  big_endian :: bool

subsection \<open>Shared-memory primitives\<close>

definition shm_open_creat :: "string \<Rightarrow> shm_space \<Rightarrow> shm_space" where
  \<comment> \<open>\<^verbatim>\<open>shm_open(name, O_CREAT | O_RDWR, 0666)\<close> that succeeded: a new object is empty, an
      existing one is opened as it is.\<close>
  "shm_open_creat name s = (case s name of None \<Rightarrow> s(name \<mapsto> []) | Some d \<Rightarrow> s)"

definition ftruncate_shm :: "string \<Rightarrow> nat \<Rightarrow> shm_space \<Rightarrow> shm_space" where
  \<comment> \<open>\<^verbatim>\<open>ftruncate\<close> that succeeded: the object is cut or zero-extended to \<open>n\<close> bytes.\<close>
  "ftruncate_shm name n s =
     (case s name of None \<Rightarrow> s | Some d \<Rightarrow> s(name \<mapsto> take n d @ replicate (n - length d) 0))"

definition shm_unlink :: "string option \<Rightarrow> shm_space \<Rightarrow> shm_space" where
  "shm_unlink name s = (case name of None \<Rightarrow> s | Some n \<Rightarrow> s(n := None))"

text \<open>
  Mappings. \<^verbatim>\<open>mmap\<close> and \<^verbatim>\<open>munmap\<close> work on whole pages: a mapping of \<open>n\<close> bytes takes
  \<open>page_count n\<close> pages, and unmapping a range removes every page that the range touches,
  whichever mapping the page belongs to.
\<close>

definition page_count :: "nat \<Rightarrow> nat" where
  \<comment> \<open>the pages that a range of \<open>n\<close> bytes from a page boundary touches\<close>
  "page_count n = (n + PAGESIZE - 1) div PAGESIZE"

definition region_free :: "address_space \<Rightarrow> nat \<Rightarrow> nat \<Rightarrow> bool" where
  "region_free space p k \<longleftrightarrow> list_all (\<lambda>i. space (p + i) = None) [0..<k]"

definition mmap_shared :: "shm_calls \<Rightarrow> nat \<Rightarrow> address_space \<Rightarrow> nat option" where
  \<comment> \<open>\<^verbatim>\<open>mmap(NULL, n, PROT_READ | PROT_WRITE, MAP_SHARED, fd, 0)\<close>: the kernel picks the
      place, never page 0 and never pages in use. A proposed place that the kernel could
      not have picked counts as a call that fails, which any call may do. \<open>None\<close> is
      \<^verbatim>\<open>MAP_FAILED\<close>.\<close>
  "mmap_shared c n space =
     (if mmap_ok c \<and> mmap_page c \<noteq> 0 \<and> region_free space (mmap_page c) (page_count n)
      then Some (mmap_page c) else None)"

definition page_slice :: "u8 list \<Rightarrow> nat \<Rightarrow> u8 list" where
  \<comment> \<open>the bytes of an object that lie in its page \<open>i\<close>\<close>
  "page_slice bytes i = take PAGESIZE (drop (i * PAGESIZE) bytes)"

definition map_pages :: "nat \<Rightarrow> u8 list \<Rightarrow> address_space \<Rightarrow> address_space" where
  \<comment> \<open>the pages from \<open>p\<close> on show an object whose contents are \<open>bytes\<close>\<close>
  "map_pages p bytes space =
     (\<lambda>q. if p \<le> q \<and> q < p + page_count (length bytes)
          then Some (page_slice bytes (q - p))
          else space q)"

definition munmap :: "map_ptr \<Rightarrow> nat \<Rightarrow> address_space \<Rightarrow> address_space" where
  \<comment> \<open>\<^verbatim>\<open>munmap(addr, len)\<close> removes whatever is mapped in the pages of the range, and has
      no effect where nothing is mapped; null and \<^verbatim>\<open>MAP_FAILED\<close> are not addresses of pages
      that can be mapped.\<close>
  "munmap addr len space =
     (case addr of
        MapAddr p \<Rightarrow> (\<lambda>q. if p \<le> q \<and> q < p + page_count len then None else space q)
      | NullPtr \<Rightarrow> space
      | MapFailed \<Rightarrow> space)"

definition load :: "address_space \<Rightarrow> map_ptr \<Rightarrow> nat \<Rightarrow> u8 list option" where
  \<comment> \<open>the \<open>n\<close> bytes read through a pointer; \<open>None\<close> when the read faults (a page of the
      range is not mapped, or the pointer is not an address)\<close>
  "load space addr n =
     (case addr of
        MapAddr p \<Rightarrow>
          if list_all (\<lambda>i. space (p + i) \<noteq> None) [0..<page_count n]
          then Some (map (\<lambda>j. case space (p + j div PAGESIZE) of
                                 None \<Rightarrow> 0
                               | Some page \<Rightarrow>
                                   if j mod PAGESIZE < length page then page ! (j mod PAGESIZE) else 0)
                         [0..<n])
          else None
      | NullPtr \<Rightarrow> None
      | MapFailed \<Rightarrow> None)"

definition memcpy_from :: "u8 list \<Rightarrow> nat \<Rightarrow> u8 list option" where
  \<comment> \<open>the \<open>n\<close> bytes \<^verbatim>\<open>memcpy\<close> reads from the frame buffer\<close>
  "memcpy_from src n = (if n \<le> length src then Some (take n src) else None)"

subsection \<open>\<^verbatim>\<open>get_frame_size\<close> and \<^verbatim>\<open>get_latest_frame\<close>\<close>

definition get_frame_size :: "camera_buffer_t \<Rightarrow> size_t" where
  "get_frame_size buffer =
     (case frametype buffer of
        CAMERA_FRAMETYPE_RGB8888 \<Rightarrow>
          ucast (fd_width (framedesc buffer)) * ucast (fd_height (framedesc buffer)) * 4
      | CAMERA_FRAMETYPE_BGR8888 \<Rightarrow>
          ucast (fd_width (framedesc buffer)) * ucast (fd_height (framedesc buffer)) * 4
      | CAMERA_FRAMETYPE_YCBYCR \<Rightarrow>
          ucast (fd_width (framedesc buffer)) * ucast (fd_height (framedesc buffer)) * 2
      | CAMERA_FRAMETYPE_CBYCRY \<Rightarrow>
          ucast (fd_width (framedesc buffer)) * ucast (fd_height (framedesc buffer)) * 2
      | CAMERA_FRAMETYPE_OTHER t \<Rightarrow> 0)"

definition get_latest_frame :: "globals \<Rightarrow> nat option" where
  \<comment> \<open>the returned pointer \<^verbatim>\<open>&frame_buffer[latest_index]\<close> is the slot index\<close>
  "get_latest_frame g =
     (if buffer_count g = 0 then None
      else Some ((buffer_head g + buffer_count g - 1) mod MAX_FRAMES))"

subsection \<open>Stage 1: storing the frame in the ring (lines 358 to 389)\<close>

definition digit_char :: "nat \<Rightarrow> char" where
  "digit_char d = ''0123456789'' ! d"

fun string_of_nat :: "nat \<Rightarrow> string" where
  "string_of_nat n =
     (if n < 10 then [digit_char n] else string_of_nat (n div 10) @ [digit_char (n mod 10)])"

definition frame_shm_name :: "nat \<Rightarrow> string" where
  \<comment> \<open>\<^verbatim>\<open>snprintf(shm_name, 256, "/camera_frame_%d", index)\<close>\<close>
  "frame_shm_name index = ''/camera_frame_'' @ string_of_nat index"

definition evict_oldest :: "globals \<Rightarrow> globals" where
  "evict_oldest g =
     (if buffer_count g = MAX_FRAMES then
        g\<lparr>vm := munmap (mapped_data (frame_buffer g ! buffer_head g))
                       (unat (data_size (frame_buffer g ! buffer_head g))) (vm g),
          shm := shm_unlink (shm_name (frame_buffer g ! buffer_head g)) (shm g),
          buffer_head := (buffer_head g + 1) mod MAX_FRAMES,
          buffer_count := buffer_count g - 1\<rparr>
      else g)"

definition store_frame :: "shm_calls \<Rightarrow> camera_buffer_t \<Rightarrow> globals \<Rightarrow> globals option" where
  "store_frame c buffer g0 =
     (let size = get_frame_size buffer;
          g = evict_oldest g0;
          index = (buffer_head g + buffer_count g) mod MAX_FRAMES;
          name = frame_shm_name index
      in if shm_open_ok c then
           (let g1 = g\<lparr>shm := shm_open_creat name (shm g)\<rparr>
            in if ftruncate_ok c then
                 (let g2 = g1\<lparr>shm := ftruncate_shm name (unat size) (shm g1)\<rparr>
                  in (case mmap_shared c (unat size) (vm g2) of
                        None \<Rightarrow> Some g2
                      | Some p \<Rightarrow>
                          (case memcpy_from (framebuf buffer) (unat size) of
                             None \<Rightarrow> None
                           | Some bytes \<Rightarrow>
                               Some (g2\<lparr>vm := map_pages p bytes (vm g2),
                                        shm := (shm g2)(name \<mapsto> bytes),
                                        frame_buffer := (frame_buffer g2)[index :=
                                          \<lparr>f_frametype = frametype buffer,
                                           f_framedesc = framedesc buffer,
                                           shm_name = Some name,
                                           mapped_data = MapAddr p,
                                           data_size = size\<rparr>],
                                        buffer_count := buffer_count g2 + 1\<rparr>))))
               else Some g1)
         else Some g)"

subsection \<open>Stage 2: the latest-frame slot (lines 391 to 411)\<close>

definition publish_latest :: "shm_calls \<Rightarrow> camera_buffer_t \<Rightarrow> globals \<Rightarrow> globals option" where
  "publish_latest c buffer g0 =
     (let g = (if latest_mapped g0 \<noteq> NullPtr
               then g0\<lparr>vm := munmap (latest_mapped g0) (unat (latest_size g0)) (vm g0),
                       shm := shm_unlink (latest_shm_name g0) (shm g0)\<rparr>
               else g0);
          name = ''/camera_latest'';
          g1 = g\<lparr>latest_shm_name := Some name\<rparr>
      in if shm_open_ok c then
           (let g2 = g1\<lparr>shm := shm_open_creat name (shm g1)\<rparr>;
                size = get_frame_size buffer
            in if ftruncate_ok c then
                 (let g3 = g2\<lparr>shm := ftruncate_shm name (unat size) (shm g2)\<rparr>
                  in (case mmap_shared c (unat size) (vm g3) of
                        None \<Rightarrow> Some (g3\<lparr>latest_mapped := MapFailed\<rparr>)
                      | Some p \<Rightarrow>
                          (case memcpy_from (framebuf buffer) (unat size) of
                             None \<Rightarrow> None
                           | Some bytes \<Rightarrow>
                               Some (g3\<lparr>latest_mapped := MapAddr p,
                                        vm := map_pages p bytes (vm g3),
                                        shm := (shm g3)(name \<mapsto> bytes),
                                        latest_size := size\<rparr>))))
               else Some g2)
         else Some g1)"

subsection \<open>Stage 3: the metadata record and the name record (lines 413 to 453)\<close>

text \<open>
  The switch that reads width, height and stride from the descriptor member of the tag.
  The source has it twice (lines 415 and 461), with the same cases.
\<close>

definition frame_dims :: "camera_buffer_t \<Rightarrow> u32 \<times> u32 \<times> u32" where
  "frame_dims buffer =
     (case frametype buffer of
        CAMERA_FRAMETYPE_RGB8888 \<Rightarrow>
          (fd_width (framedesc buffer), fd_height (framedesc buffer), fd_stride (framedesc buffer))
      | CAMERA_FRAMETYPE_BGR8888 \<Rightarrow>
          (fd_width (framedesc buffer), fd_height (framedesc buffer), fd_stride (framedesc buffer))
      | CAMERA_FRAMETYPE_YCBYCR \<Rightarrow>
          (fd_width (framedesc buffer), fd_height (framedesc buffer), fd_stride (framedesc buffer))
      | CAMERA_FRAMETYPE_CBYCRY \<Rightarrow>
          (fd_width (framedesc buffer), fd_height (framedesc buffer), fd_stride (framedesc buffer))
      | CAMERA_FRAMETYPE_OTHER t \<Rightarrow> (0, 0, 0))"

definition update_metadata :: "camera_buffer_t \<Rightarrow> globals \<Rightarrow> globals" where
  "update_metadata buffer g =
     (case frame_dims buffer of
        (width, height, stride) \<Rightarrow>
          g\<lparr>metadata_mapped :=
              \<lparr>m_frametype = frametype buffer,
               m_width = width,
               m_height = height,
               m_size = get_frame_size buffer\<rparr>\<rparr>)"

definition strncpy_bytes :: "string \<Rightarrow> nat \<Rightarrow> u8 list" where
  \<comment> \<open>what \<^verbatim>\<open>strncpy(dst, s, n)\<close> leaves in \<open>dst\<close>: the string, then zeros up to \<open>n\<close>\<close>
  "strncpy_bytes s n = take n (map of_char s) @ replicate (n - length s) 0"

definition update_latest_name :: "shm_calls \<Rightarrow> globals \<Rightarrow> globals" where
  "update_latest_name c g =
     (let name = ''/camera_latest_name''
      in if shm_open_ok c then
           (let g1 = g\<lparr>shm := shm_open_creat name (shm g)\<rparr>
            in if ftruncate_ok c then
                 (let g2 = g1\<lparr>shm := ftruncate_shm name 256 (shm g1)\<rparr>
                  in (case mmap_shared c 256 (vm g2) of
                        None \<Rightarrow> g2
                      | Some p \<Rightarrow>
                          g2\<lparr>vm := munmap (MapAddr p) 256
                                      (map_pages p (strncpy_bytes ''/camera_latest'' 256) (vm g2)),
                             shm := (shm g2)(name \<mapsto> strncpy_bytes ''/camera_latest'' 256)\<rparr>))
               else g1)
         else g)"

subsection \<open>Loops\<close>

text \<open>
  \<^verbatim>\<open>for (i = i0; i < n; i++) body\<close> over a state that the body may fail to produce.
  Every counter of the program is unsigned, 32 bits wide, and runs below a 32-bit bound,
  so it never wraps: counters are natural numbers, converted with \<open>of_nat\<close> where they
  enter 32-bit arithmetic.
\<close>

function for_loop :: "nat \<Rightarrow> nat \<Rightarrow> (nat \<Rightarrow> 'a \<Rightarrow> 'a option) \<Rightarrow> 'a \<Rightarrow> 'a option" where
  "for_loop i n body s =
     (if i < n
      then (case body i s of None \<Rightarrow> None | Some s' \<Rightarrow> for_loop (i + 1) n body s')
      else Some s)"
  by pat_completeness auto
termination
  by (relation "measure (\<lambda>(i, n, body, s). n - i)") auto

declare for_loop.simps [simp del]

subsection \<open>Stage 4: packing, encoding and sending (lines 489 to 510)\<close>

definition copy_byte :: "u8 list \<Rightarrow> nat \<Rightarrow> nat \<Rightarrow> u8 list \<Rightarrow> u8 list option" where
  \<comment> \<open>\<^verbatim>\<open>dst[j] = src[i]\<close>; an index outside either array is undefined behaviour\<close>
  "copy_byte src i j dst =
     (if i < length src \<and> j < length dst then Some (dst[j := src ! i]) else None)"

definition pack_pixel :: "u8 list \<Rightarrow> u32 \<Rightarrow> u32 \<Rightarrow> u32 \<Rightarrow> u32 \<Rightarrow> u8 list \<Rightarrow> u8 list option" where
  "pack_pixel src width stride y x rgb_data =
     (case copy_byte src (unat (y * stride + x * 4)) (unat ((y * width + x) * 3)) rgb_data of
        None \<Rightarrow> None
      | Some r1 \<Rightarrow>
          (case copy_byte src (unat (y * stride + x * 4 + 1)) (unat ((y * width + x) * 3 + 1)) r1 of
             None \<Rightarrow> None
           | Some r2 \<Rightarrow>
               copy_byte src (unat (y * stride + x * 4 + 2)) (unat ((y * width + x) * 3 + 2)) r2))"

definition pack_rgb :: "(nat \<Rightarrow> u8) \<Rightarrow> u8 list \<Rightarrow> u32 \<Rightarrow> u32 \<Rightarrow> u32 \<Rightarrow> u8 list option" where
  \<comment> \<open>\<^verbatim>\<open>malloc(width * height * 3)\<close> and the two nested loops\<close>
  "pack_rgb junk src width height stride =
     for_loop 0 (unat height)
       (\<lambda>y. for_loop 0 (unat width)
          (\<lambda>x. pack_pixel src width stride (of_nat y) (of_nat x)))
       (map junk [0..<unat (width * height * 3)])"

fun le_bytes :: "nat \<Rightarrow> nat \<Rightarrow> u8 list" where
  "le_bytes 0 v = []"
| "le_bytes (Suc k) v = of_nat (v mod 256) # le_bytes k (v div 256)"

definition native_bytes :: "bool \<Rightarrow> size_t \<Rightarrow> u8 list" where
  \<comment> \<open>the \<^verbatim>\<open>sizeof(unsigned long)\<close> = 8 bytes of \<^verbatim>\<open>jpeg_size\<close> as they lie in memory\<close>
  "native_bytes be v = (if be then rev (le_bytes 8 (unat v)) else le_bytes 8 (unat v))"

definition stream_gate :: "camera_buffer_t \<Rightarrow> bool" where
  \<comment> \<open>the condition of line 490\<close>
  "stream_gate buffer =
     (case frame_dims buffer of
        (width, height, stride) \<Rightarrow>
          frametype buffer = CAMERA_FRAMETYPE_RGB8888 \<and> width > 0 \<and> height > 0)"

definition encode_and_stream :: "sys_env \<Rightarrow> camera_buffer_t \<Rightarrow> globals \<Rightarrow> globals option" where
  "encode_and_stream e buffer g =
     (case frame_dims buffer of
        (width, height, stride) \<Rightarrow>
          if stream_gate buffer then
            if malloc_ok e then
              (case pack_rgb (heap_junk e) (framebuf buffer) width height stride of
                 None \<Rightarrow> None
               | Some rgb_data \<Rightarrow>
                   (case jpeg_codec e rgb_data width height of
                      None \<Rightarrow> Some g
                    | Some jpeg_data \<Rightarrow>
                        (let jpeg_size = (of_nat (length jpeg_data) :: size_t)
                         in Some (g\<lparr>sock_sent := sock_sent g @
                                     [native_bytes (big_endian e) jpeg_size,
                                      take (unat jpeg_size) jpeg_data]\<rparr>))))
            else Some g
          else Some g)"

subsection \<open>Stage 5: channel averages (lines 512 to 603)\<close>

text \<open>
  \<^verbatim>\<open>channelAverage\<close> is an array of three doubles. The loops add byte values to it; such
  sums are exact in a double below \<open>2 ^ 53\<close>, so the model keeps them as natural numbers.
  The final division is the only rounding step; the model returns the sums together with
  the divisors and leaves the quotient to \<open>channel_average\<close>.
\<close>

definition add_sample :: "u8 list \<Rightarrow> nat \<Rightarrow> nat \<Rightarrow> nat list \<Rightarrow> nat list option" where
  \<comment> \<open>\<^verbatim>\<open>channelAverage[chan] += (double)*(linePointer + i)\<close>\<close>
  "add_sample src pos chan avg =
     (if pos < length src \<and> chan < length avg
      then Some (avg[chan := avg ! chan + unat (src ! pos)])
      else None)"

definition rgb8888_chan :: "u32 \<Rightarrow> u32 option" where
  \<comment> \<open>\<open>None\<close> is the \<^verbatim>\<open>continue\<close>\<close>
  "rgb8888_chan i = (let chan = i mod 4 in if chan = 3 then None else Some chan)"

definition bgr8888_chan :: "u32 \<Rightarrow> u32 \<Rightarrow> u32 option" where
  "bgr8888_chan width i =
     (if i mod 4 = 3 then None else Some ((4 * width - i + 3) mod 4 - 1))"

definition ycbycr_chan :: "u32 \<Rightarrow> u32 option" where
  "ycbycr_chan i =
     (let chan = i mod 2 in Some (if chan = 1 then (i - 1) mod 4 div 2 + 1 else chan))"

definition cbycry_chan :: "u32 \<Rightarrow> u32 option" where
  "cbycry_chan i =
     (let chan = (i + 1) mod 2 in Some (if chan = 1 then ((i + 1) mod 4 + 1) div 2 else chan))"

definition sum_lines ::
  "(u32 \<Rightarrow> u32 option) \<Rightarrow> u32 \<Rightarrow> u8 list \<Rightarrow> u32 \<Rightarrow> u32 \<Rightarrow> nat list option" where
  \<comment> \<open>the loop nest shared by the four cases: \<open>chan_of\<close> is the case's channel arithmetic,
      \<open>row_bytes\<close> its inner bound (\<^verbatim>\<open>4 * width\<close> or \<^verbatim>\<open>2 * width\<close>)\<close>
  "sum_lines chan_of row_bytes src height stride =
     for_loop 0 (unat height)
       (\<lambda>y. for_loop 0 (unat row_bytes)
          (\<lambda>i avg. case chan_of (of_nat i) of
                     None \<Rightarrow> Some avg
                   | Some chan \<Rightarrow> add_sample src (unat (of_nat y * stride) + i) (unat chan) avg))
       (replicate NUM_CHANNELS 0)"

definition channel_stats :: "camera_buffer_t \<Rightarrow> stats option" where
  "channel_stats buffer =
     (case frame_dims buffer of
        (width, height, stride) \<Rightarrow>
          (case frametype buffer of
             CAMERA_FRAMETYPE_RGB8888 \<Rightarrow>
               map_option
                 (\<lambda>avg. Channel_averages avg [width * height, width * height, width * height])
                 (sum_lines rgb8888_chan (4 * width) (framebuf buffer) height stride)
           | CAMERA_FRAMETYPE_BGR8888 \<Rightarrow>
               map_option
                 (\<lambda>avg. Channel_averages avg [width * height, width * height, width * height])
                 (sum_lines (bgr8888_chan width) (4 * width) (framebuf buffer) height stride)
           | CAMERA_FRAMETYPE_YCBYCR \<Rightarrow>
               map_option
                 (\<lambda>avg. Channel_averages avg
                    [width * height, width div 2 * height, width div 2 * height])
                 (sum_lines ycbycr_chan (2 * width) (framebuf buffer) height stride)
           | CAMERA_FRAMETYPE_CBYCRY \<Rightarrow>
               map_option
                 (\<lambda>avg. Channel_averages avg
                    [width * height, width div 2 * height, width div 2 * height])
                 (sum_lines cbycry_chan (2 * width) (framebuf buffer) height stride)
           | CAMERA_FRAMETYPE_OTHER t \<Rightarrow> Some (Frametype_not_supported (CAMERA_FRAMETYPE_OTHER t))))"

definition channel_average :: "stats \<Rightarrow> nat \<Rightarrow> real option" where
  \<comment> \<open>\<^verbatim>\<open>channelAverage[chan] /= (double)divisor\<close>, as an exact quotient; \<open>None\<close> where the
      divisor is zero and the double is not a finite number\<close>
  "channel_average s chan =
     (case s of
        Frametype_not_supported t \<Rightarrow> None
      | Channel_averages totals divisors \<Rightarrow>
          if chan < NUM_CHANNELS \<and> chan < length totals \<and> chan < length divisors
             \<and> divisors ! chan \<noteq> 0
          then Some (real (totals ! chan) / real (unat (divisors ! chan)))
          else None)"

subsection \<open>The callback\<close>

definition processCameraData :: "sys_env \<Rightarrow> camera_buffer_t \<Rightarrow> globals \<Rightarrow> globals option" where
  "processCameraData e buffer g0 =
     (case store_frame (frame_calls e) buffer g0 of
        None \<Rightarrow> None
      | Some g1 \<Rightarrow>
          (case publish_latest (latest_calls e) buffer g1 of
             None \<Rightarrow> None
           | Some g2 \<Rightarrow>
               (case encode_and_stream e buffer
                       (update_latest_name (name_calls e) (update_metadata buffer g2)) of
                  None \<Rightarrow> None
                | Some g3 \<Rightarrow>
                    (case channel_stats buffer of
                       None \<Rightarrow> None
                     | Some s \<Rightarrow> Some (g3\<lparr>console := Some s\<rparr>)))))"

subsection \<open>The state at the first callback, and a callback in which every call succeeds\<close>

definition zero_frame :: Frame where
  \<comment> \<open>a slot of the zero-initialised static array; tag 0 is not one of the four supported\<close>
  "zero_frame =
     \<lparr>f_frametype = CAMERA_FRAMETYPE_OTHER 0,
      f_framedesc = \<lparr>fd_width = 0, fd_height = 0, fd_stride = 0\<rparr>,
      shm_name = None,
      mapped_data = NullPtr,
      data_size = 0\<rparr>"

definition initial_globals :: globals where
  "initial_globals =
     \<lparr>frame_buffer = replicate MAX_FRAMES zero_frame,
      buffer_head = 0,
      buffer_count = 0,
      metadata_mapped = \<lparr>m_frametype = CAMERA_FRAMETYPE_OTHER 0, m_width = 0, m_height = 0, m_size = 0\<rparr>,
      latest_shm_name = None,
      latest_mapped = NullPtr,
      latest_size = 0,
      shm = (\<lambda>name. None),
      vm = (\<lambda>page. None),
      sock_sent = [],
      console = None\<rparr>"

definition calls_at :: "nat \<Rightarrow> shm_calls" where
  \<comment> \<open>the three calls succeed, and the kernel places the mapping at page \<open>p\<close>\<close>
  "calls_at p = \<lparr>shm_open_ok = True, ftruncate_ok = True, mmap_ok = True, mmap_page = p\<rparr>"

definition calls_ok :: shm_calls where
  "calls_ok = calls_at 32"

subsection \<open>Reading the ring and the latest slot\<close>

text \<open>The live frames, oldest first: the slots \<open>head\<close>, \<open>head + 1\<close>, ... (modulo the
  capacity), \<open>buffer_count\<close> of them, as \<^verbatim>\<open>main\<close> walks them when it frees the ring.\<close>

definition live_frames :: "globals \<Rightarrow> Frame list" where
  "live_frames g =
     map (\<lambda>i. frame_buffer g ! ((buffer_head g + i) mod MAX_FRAMES)) [0..<buffer_count g]"

definition store_inv :: "globals \<Rightarrow> bool" where
  "store_inv g \<longleftrightarrow>
     buffer_head g < MAX_FRAMES \<and> buffer_count g \<le> MAX_FRAMES
     \<and> length (frame_buffer g) = MAX_FRAMES"

definition frame_bytes :: "globals \<Rightarrow> Frame \<Rightarrow> u8 list option" where
  \<comment> \<open>what a reader of a slot finds: \<open>data_size\<close> bytes read through \<open>mapped_data\<close>\<close>
  "frame_bytes g f = load (vm g) (mapped_data f) (unat (data_size f))"

definition push_failed :: "shm_calls \<Rightarrow> bool" where
  "push_failed c \<longleftrightarrow> \<not> shm_open_ok c \<or> \<not> ftruncate_ok c \<or> \<not> mmap_ok c"

definition fits :: "camera_buffer_t \<Rightarrow> bool" where
  \<comment> \<open>the driver's buffer holds the bytes \<^verbatim>\<open>memcpy\<close> reads\<close>
  "fits b \<longleftrightarrow> unat (get_frame_size b) \<le> length (framebuf b)"

fun push_all :: "(shm_calls \<times> camera_buffer_t) list \<Rightarrow> globals \<Rightarrow> globals option" where
  "push_all [] g = Some g"
| "push_all ((c, b) # rest) g =
     (case store_frame c b g of None \<Rightarrow> None | Some g' \<Rightarrow> push_all rest g')"

definition latest_inv :: "globals \<Rightarrow> bool" where
  \<comment> \<open>once the latest slot has been used its name is the fixed one\<close>
  "latest_inv g \<longleftrightarrow>
     (latest_mapped g \<noteq> NullPtr \<longrightarrow> latest_shm_name g = Some ''/camera_latest'')"

subsection \<open>Concrete frames and call outcomes\<close>

definition sample_frame :: "nat \<Rightarrow> camera_buffer_t" where
  \<comment> \<open>a 1 by 1 RGB8888 frame whose colour bytes carry \<open>k\<close>\<close>
  "sample_frame k =
     \<lparr>frametype = CAMERA_FRAMETYPE_RGB8888,
      framedesc = \<lparr>fd_width = 1, fd_height = 1, fd_stride = 4\<rparr>,
      framebuf = [of_nat k, of_nat k, of_nat k, 255]\<rparr>"

definition open_fails :: shm_calls where
  "open_fails = \<lparr>shm_open_ok = False, ftruncate_ok = True, mmap_ok = True, mmap_page = 0\<rparr>"

definition mmap_fails :: shm_calls where
  "mmap_fails = \<lparr>shm_open_ok = True, ftruncate_ok = True, mmap_ok = False, mmap_page = 0\<rparr>"

definition full_ring :: globals where
  \<comment> \<open>the ring after five successful pushes, mapped at the pages 16 to 20\<close>
  "full_ring =
     the (push_all (map (\<lambda>k. (calls_at (15 + k), sample_frame k)) [1, 2, 3, 4, 5])
            initial_globals)"

definition env_ok :: sys_env where
  \<comment> \<open>every call succeeds, with the ring mapping at page 16, the latest mapping at page 32
      and the short-lived mapping of the name record at page 48; the stand-in codec stores
      the packed image as it is\<close>
  "env_ok =
     \<lparr>frame_calls = calls_at 16, latest_calls = calls_at 32, name_calls = calls_at 48,
      malloc_ok = True, heap_junk = (\<lambda>i. 0),
      jpeg_codec = (\<lambda>rgb_data width height. Some rgb_data),
      big_endian = False\<rparr>"

definition env_map_fails :: sys_env where
  \<comment> \<open>as \<open>env_ok\<close>, but \<^verbatim>\<open>mmap\<close> fails for the ring segment and for the latest segment
      (what POSIX prescribes for a mapping of length 0)\<close>
  "env_map_fails = env_ok\<lparr>frame_calls := mmap_fails, latest_calls := mmap_fails\<rparr>"

definition unsupported_frame :: camera_buffer_t where
  "unsupported_frame =
     \<lparr>frametype = CAMERA_FRAMETYPE_OTHER 99,
      framedesc = \<lparr>fd_width = 2, fd_height = 1, fd_stride = 8\<rparr>,
      framebuf = [10, 20, 30, 99, 40, 50, 60, 99]\<rparr>"

definition after_one_frame :: globals where
  "after_one_frame = the (processCameraData env_ok (sample_frame 1) initial_globals)"

definition published_once :: globals where
  "published_once = the (publish_latest calls_ok (sample_frame 1) initial_globals)"

definition env_pages :: "nat \<Rightarrow> nat \<Rightarrow> sys_env" where
  \<comment> \<open>as \<open>env_ok\<close>, with the ring mapping at page \<open>f\<close> and the latest mapping at page \<open>l\<close>\<close>
  "env_pages f l = env_ok\<lparr>frame_calls := calls_at f, latest_calls := calls_at l\<rparr>"

definition latest_open_fails :: "sys_env \<Rightarrow> sys_env" where
  \<comment> \<open>\<^verbatim>\<open>shm_open("/camera_latest", ...)\<close> fails in this callback\<close>
  "latest_open_fails e = e\<lparr>latest_calls := open_fails\<rparr>"

definition frame_open_fails :: "sys_env \<Rightarrow> sys_env" where
  \<comment> \<open>\<^verbatim>\<open>shm_open\<close> of the ring segment fails in this callback\<close>
  "frame_open_fails e = e\<lparr>frame_calls := open_fails\<rparr>"

definition huge_frame :: camera_buffer_t where
  \<comment> \<open>a descriptor of \<open>2 ^ 31\<close> by \<open>2 ^ 31\<close> pixels\<close>
  "huge_frame =
     \<lparr>frametype = CAMERA_FRAMETYPE_RGB8888,
      framedesc = \<lparr>fd_width = 2147483648, fd_height = 2147483648, fd_stride = 0\<rparr>,
      framebuf = []\<rparr>"

subsection \<open>The statistics and the packing, as the specification words them\<close>

definition row_sum :: "(nat \<Rightarrow> nat option) \<Rightarrow> u8 list \<Rightarrow> nat \<Rightarrow> nat \<Rightarrow> nat \<Rightarrow> nat" where
  \<comment> \<open>the bytes \<open>base + i\<close>, \<open>i < n\<close>, of one line that belong to channel \<open>c\<close>, summed\<close>
  "row_sum chan src base n c =
     (\<Sum>i\<leftarrow>[0..<n]. if chan i = Some c then unat (src ! (base + i)) else 0)"

definition spec_channel_total :: "u8 list \<Rightarrow> nat \<Rightarrow> nat \<Rightarrow> nat \<Rightarrow> nat \<Rightarrow> nat \<Rightarrow> nat" where
  \<comment> \<open>the sum, over every row (found by the stride) and over \<open>samples\<close> samples per row
      that lie \<open>step\<close> bytes apart, of the byte at offset \<open>off\<close> of the sample\<close>
  "spec_channel_total src samples height stride step off =
     (\<Sum>y\<leftarrow>[0..<height]. \<Sum>x\<leftarrow>[0..<samples]. unat (src ! (y * stride + x * step + off)))"

definition well_formed :: "nat \<Rightarrow> camera_buffer_t \<Rightarrow> bool" where
  \<comment> \<open>a frame of \<open>bpp\<close> bytes per pixel that is what its descriptor says: a row fits in the
      stride, the buffer holds every row, and the frame extends over less than \<open>2 ^ 32\<close>
      bytes, so that the program's 32-bit index arithmetic is exact\<close>
  "well_formed bpp b \<longleftrightarrow>
     bpp * unat (fd_width (framedesc b)) \<le> unat (fd_stride (framedesc b))
     \<and> (unat (fd_height (framedesc b)) = 0
        \<or> (unat (fd_height (framedesc b)) - 1) * unat (fd_stride (framedesc b))
             + bpp * unat (fd_width (framedesc b)) \<le> length (framebuf b))
     \<and> unat (fd_height (framedesc b)) * unat (fd_stride (framedesc b)) < 2 ^ 32"

definition example_frame :: "camera_frametype_t \<Rightarrow> camera_buffer_t" where
  \<comment> \<open>the frame of the specification's decoder example, under a given tag\<close>
  "example_frame t =
     \<lparr>frametype = t,
      framedesc = \<lparr>fd_width = 2, fd_height = 1, fd_stride = 8\<rparr>,
      framebuf = [10, 20, 30, 99, 40, 50, 60, 99]\<rparr>"

definition padded_frame :: "camera_frametype_t \<Rightarrow> camera_buffer_t" where
  \<comment> \<open>2 by 2 pixels of 4 bytes with a stride of 12: four padding bytes end each row\<close>
  "padded_frame t =
     \<lparr>frametype = t,
      framedesc = \<lparr>fd_width = 2, fd_height = 2, fd_stride = 12\<rparr>,
      framebuf = [1, 2, 3, 200, 5, 6, 7, 200, 250, 250, 250, 250,
                  11, 12, 13, 200, 15, 16, 17, 200, 250, 250, 250, 250]\<rparr>"

definition chroma_frame :: "camera_frametype_t \<Rightarrow> camera_buffer_t" where
  \<comment> \<open>2 by 1 pixels of a 2-byte layout\<close>
  "chroma_frame t =
     \<lparr>frametype = t,
      framedesc = \<lparr>fd_width = 2, fd_height = 1, fd_stride = 4\<rparr>,
      framebuf = [16, 100, 18, 200]\<rparr>"

definition padded_chroma_frame :: "camera_frametype_t \<Rightarrow> camera_buffer_t" where
  \<comment> \<open>4 by 2 pixels of a 2-byte layout with a stride of 10: two padding bytes end each row\<close>
  "padded_chroma_frame t =
     \<lparr>frametype = t,
      framedesc = \<lparr>fd_width = 4, fd_height = 2, fd_stride = 10\<rparr>,
      framebuf = [1, 2, 3, 4, 5, 6, 7, 8, 250, 250,
                  11, 12, 13, 14, 15, 16, 17, 18, 250, 250]\<rparr>"

definition packed_upto :: "u8 list \<Rightarrow> nat \<Rightarrow> nat \<Rightarrow> nat \<Rightarrow> u8 list \<Rightarrow> bool" where
  \<comment> \<open>the first \<open>n\<close> pixels, in row-major order, of the packed buffer carry the first three
      bytes of the source pixels\<close>
  "packed_upto src w s n rgb \<longleftrightarrow>
     (\<forall>p<n. \<forall>c<3. rgb ! (p * 3 + c) = src ! ((p div w) * s + (p mod w) * 4 + c))"

subsection \<open>Reading the stream back\<close>

definition length_prefix :: "bool \<Rightarrow> u8 list \<Rightarrow> u8 list" where
  \<comment> \<open>the eight bytes that announce a payload\<close>
  "length_prefix be payload = native_bytes be (of_nat (length payload))"

fun le_value :: "u8 list \<Rightarrow> nat" where
  "le_value [] = 0"
| "le_value (b # bs) = unat b + 256 * le_value bs"

definition native_value :: "bool \<Rightarrow> u8 list \<Rightarrow> nat" where
  \<comment> \<open>the number a reader of the same byte order finds in a length prefix\<close>
  "native_value be bytes = le_value (if be then rev bytes else bytes)"

text \<open>A receiver of the byte stream: eight bytes of length, then that many bytes of image,
  again and again; \<open>None\<close> when the stream stops inside a frame. The fuel bounds the number
  of frames read.\<close>

fun read_frames :: "nat \<Rightarrow> bool \<Rightarrow> u8 list \<Rightarrow> u8 list list option" where
  "read_frames 0 be bytes = (if bytes = [] then Some [] else None)"
| "read_frames (Suc fuel) be bytes =
     (if bytes = [] then Some []
      else if length bytes < 8 then None
      else (let n = native_value be (take 8 bytes); rest = drop 8 bytes
            in if length rest < n then None
               else (case read_frames fuel be (drop n rest) of
                       None \<Rightarrow> None
                     | Some frames \<Rightarrow> Some (take n rest # frames))))"

fun run_callbacks :: "(sys_env \<times> camera_buffer_t) list \<Rightarrow> globals \<Rightarrow> globals option" where
  "run_callbacks [] g = Some g"
| "run_callbacks ((e, b) # rest) g =
     (case processCameraData e b g of None \<Rightarrow> None | Some g' \<Rightarrow> run_callbacks rest g')"

subsection \<open>Runs in which the opening of the latest segment fails once\<close>


text \<open>
  Four frames: the opening of the latest segment fails in the second callback, the third
  ring mapping is placed at page 32, and the push of the fourth frame fails. And three
  frames, all stored, with the opening of the latest segment failing in the second and
  the third callback.
\<close>

definition four_callbacks :: "(sys_env \<times> camera_buffer_t) list" where
  "four_callbacks =
     [(env_pages 16 32, sample_frame 1),
      (latest_open_fails (env_pages 17 32), sample_frame 2),
      (env_pages 32 32, sample_frame 3),
      (frame_open_fails (env_pages 18 32), sample_frame 4)]"

definition three_callbacks :: "(sys_env \<times> camera_buffer_t) list" where
  "three_callbacks =
     [(env_pages 16 32, sample_frame 1),
      (latest_open_fails (env_pages 17 32), sample_frame 2),
      (latest_open_fails (env_pages 32 32), sample_frame 3)]"

section \<open>Evaluating the page arithmetic\<close>

text \<open>Equations that compute with the page size in binary: they are what the evaluation
  of a concrete run uses for \<open>page_count\<close>, \<open>page_slice\<close> and \<open>load\<close>.\<close>

lemma page_count_code [code]: "page_count n = nat ((int n + 4095) div 4096)"
proof -
  have "int ((n + 4096 - 1) div 4096) = (int n + 4095) div 4096"
    by (simp add: zdiv_int)
  then show ?thesis by (simp add: page_count_def PAGESIZE_def nat_eq_iff)
qed

lemma page_slice_code [code]:
  "page_slice bytes i =
     (if int (length bytes) \<le> 4096 then (if i = 0 then bytes else [])
      else take PAGESIZE (drop (i * PAGESIZE) bytes))"
  by (simp add: page_slice_def PAGESIZE_def)

lemma load_code [code]:
  "load space addr n =
     (case addr of
        MapAddr p \<Rightarrow>
          if list_all (\<lambda>i. space (p + i) \<noteq> None) [0..<page_count n]
          then Some (map (\<lambda>j. case space (p + nat (int j div 4096)) of
                                 None \<Rightarrow> 0
                               | Some page \<Rightarrow>
                                   if nat (int j mod 4096) < length page
                                   then page ! nat (int j mod 4096) else 0)
                         [0..<n])
          else None
      | NullPtr \<Rightarrow> None
      | MapFailed \<Rightarrow> None)"
proof -
  have d: "nat (int j div 4096) = j div PAGESIZE" for j
    by (simp add: PAGESIZE_def nat_div_distrib)
  have m: "nat (int j mod 4096) = j mod PAGESIZE" for j
    by (simp add: PAGESIZE_def nat_mod_distrib)
  show ?thesis unfolding d m by (simp add: load_def)
qed

section \<open>The frame ring\<close>


lemma ring_shift: "((h + 1) mod 5 + i) mod 5 = (h + Suc i) mod (5::nat)"
  by (simp add: mod_simps)

lemma evict_oldest_fields:
  "buffer_head (evict_oldest g) = (if buffer_count g = MAX_FRAMES then (buffer_head g + 1) mod MAX_FRAMES else buffer_head g)"
  "buffer_count (evict_oldest g) = (if buffer_count g = MAX_FRAMES then MAX_FRAMES - 1 else buffer_count g)"
  "frame_buffer (evict_oldest g) = frame_buffer g"
  by (simp_all add: evict_oldest_def)

lemma store_frame_failed:
  assumes "push_failed c"
  shows "\<exists>g'. store_frame c b g = Some g'
           \<and> buffer_head g' = buffer_head (evict_oldest g)
           \<and> buffer_count g' = buffer_count (evict_oldest g)
           \<and> frame_buffer g' = frame_buffer g"
  using assms
  by (auto simp: store_frame_def push_failed_def mmap_shared_def Let_def evict_oldest_fields)

lemma live_frames_cong:
  assumes "buffer_head g' = buffer_head g" "buffer_count g' = buffer_count g" "frame_buffer g' = frame_buffer g"
  shows "live_frames g' = live_frames g"
  using assms by (simp add: live_frames_def)

lemma live_evict:
  assumes "store_inv g"
  shows "live_frames (evict_oldest g) = (if buffer_count g = MAX_FRAMES then tl (live_frames g) else live_frames g)"
proof (cases "buffer_count g = MAX_FRAMES")
  case False
  then show ?thesis by (simp add: evict_oldest_def)
next
  case True
  have h: "buffer_head g < 5" using assms by (simp add: store_inv_def MAX_FRAMES_def)
  have "live_frames (evict_oldest g) = tl (live_frames g)"
  proof (rule nth_equalityI)
    show "length (live_frames (evict_oldest g)) = length (tl (live_frames g))"
      using True by (simp add: live_frames_def evict_oldest_fields)
  next
    fix i assume "i < length (live_frames (evict_oldest g))"
    then have i: "i < 4" using True by (simp add: live_frames_def evict_oldest_fields MAX_FRAMES_def)
    have "((buffer_head g + 1) mod 5 + i) mod 5 = (buffer_head g + Suc i) mod 5"
      by (rule ring_shift)
    then show "live_frames (evict_oldest g) ! i = tl (live_frames g) ! i"
      using True i by (simp add: live_frames_def evict_oldest_fields MAX_FRAMES_def nth_tl)
  qed
  then show ?thesis using True by simp
qed

lemma live_failed:
  assumes "store_inv g" "push_failed c" "store_frame c b g = Some g'"
  shows "live_frames g' = (if buffer_count g = MAX_FRAMES then tl (live_frames g) else live_frames g)"
proof -
  from store_frame_failed[OF assms(2), of b g] assms(3)
  have "buffer_head g' = buffer_head (evict_oldest g)" "buffer_count g' = buffer_count (evict_oldest g)"
       "frame_buffer g' = frame_buffer (evict_oldest g)"
    by (auto simp: evict_oldest_fields)
  then have "live_frames g' = live_frames (evict_oldest g)" by (rule live_frames_cong)
  then show ?thesis using live_evict[OF assms(1)] by simp
qed

subsection \<open>C1: a push that fails\<close>

text \<open>
  C1, as the specification states it: when the open, truncate or map step of a push fails,
  head and count are what they were before the call. The program evicts before it opens:
  on the full ring reached by five successful pushes (head 0, count 5), a sixth push whose
  \<^verbatim>\<open>shm_open\<close> fails leaves head 1 and count 4.
\<close>

theorem push_failure_when_full:
  "push_all (map (\<lambda>k. (calls_at (15 + k), sample_frame k)) [1, 2, 3, 4, 5]) initial_globals = Some full_ring
   \<and> push_failed open_fails
   \<and> buffer_head full_ring = 0 \<and> buffer_count full_ring = 5
   \<and> map_option buffer_head (store_frame open_fails (sample_frame 6) full_ring) = Some 1
   \<and> map_option buffer_count (store_frame open_fails (sample_frame 6) full_ring) = Some 4"
proof -
  have "push_all (map (\<lambda>k. (calls_at (15 + k), sample_frame k)) [1, 2, 3, 4, 5]) initial_globals \<noteq> None"
    by code_simp
  then have "push_all (map (\<lambda>k. (calls_at (15 + k), sample_frame k)) [1, 2, 3, 4, 5]) initial_globals = Some full_ring"
    by (auto simp: full_ring_def)
  moreover have "push_failed open_fails" by (simp add: push_failed_def open_fails_def)
  moreover have "buffer_head full_ring = 0" by code_simp
  moreover have "buffer_count full_ring = 5" by code_simp
  moreover have "map_option buffer_head (store_frame open_fails (sample_frame 6) full_ring) = Some 1"
    by code_simp
  moreover have "map_option buffer_count (store_frame open_fails (sample_frame 6) full_ring) = Some 4"
    by code_simp
  ultimately show ?thesis by simp
qed

text \<open>
  C1, amended: a push in which open, truncate or map fails returns, writes no slot record
  and adds no frame. If the ring held fewer than \<open>MAX_FRAMES\<close> frames, head and count are
  unchanged; if it was full, the oldest frame has been evicted before the failing call
  (head advanced by one modulo \<open>MAX_FRAMES\<close>, count \<open>MAX_FRAMES - 1\<close>). The live frames
  afterwards are the earlier live frames, without the evicted one: no partial frame is live.
\<close>

theorem store_frame_failure:
  assumes "push_failed c"
  shows "\<exists>g'. store_frame c b g = Some g'
           \<and> frame_buffer g' = frame_buffer g
           \<and> buffer_head g' = (if buffer_count g = MAX_FRAMES
                                then (buffer_head g + 1) mod MAX_FRAMES else buffer_head g)
           \<and> buffer_count g' = (if buffer_count g = MAX_FRAMES
                                 then MAX_FRAMES - 1 else buffer_count g)
           \<and> (store_inv g \<longrightarrow>
                live_frames g' = (if buffer_count g = MAX_FRAMES
                                  then tl (live_frames g) else live_frames g))"
proof -
  from store_frame_failed[OF assms, of b g] obtain g' where
    g': "store_frame c b g = Some g'" "buffer_head g' = buffer_head (evict_oldest g)"
        "buffer_count g' = buffer_count (evict_oldest g)" "frame_buffer g' = frame_buffer g"
    by blast
  have "store_inv g \<longrightarrow> live_frames g' = (if buffer_count g = MAX_FRAMES
                                  then tl (live_frames g) else live_frames g)"
    using live_failed[OF _ assms g'(1)] by blast
  then show ?thesis using g' by (simp add: evict_oldest_fields)
qed

theorem store_frame_failure_witness:
  "push_failed mmap_fails \<and> store_inv full_ring
   \<and> (\<exists>g'. store_frame mmap_fails (sample_frame 6) full_ring = Some g'
          \<and> frame_buffer g' = frame_buffer full_ring
          \<and> buffer_head g' = 1 \<and> buffer_count g' = 4
          \<and> live_frames g' = tl (live_frames full_ring))"
proof -
  have f: "push_failed mmap_fails" by (simp add: push_failed_def mmap_fails_def)
  have i: "store_inv full_ring" by code_simp
  have h: "buffer_head full_ring = 0" "buffer_count full_ring = 5" by code_simp+
  show ?thesis
    using store_frame_failure[OF f, of "sample_frame 6" full_ring] f i h
    by (simp add: MAX_FRAMES_def)
qed

section \<open>Sizes, unsupported frames and the latest-frame slot\<close>

lemma unat_ucast_u32: "unat (ucast (w :: u32) :: size_t) = unat w"
proof -
  have "unat w < 2 ^ 64"
    using unsigned_less[of w, where 'a = nat] by (simp add: order_less_trans[where y = "2 ^ 32"])
  then show ?thesis
    by (simp add: unsigned_ucast_eq take_bit_nat_eq_self)
qed

lemma unat_size_product:
  "unat (ucast (w :: u32) * ucast (h :: u32) * (k :: size_t)) = (unat w * unat h * unat k) mod 2 ^ 64"
proof -
  have "unat (ucast w * ucast h * k :: size_t)
          = (unat (ucast w * ucast h :: size_t) * unat k) mod 2 ^ 64"
    by (simp add: unat_word_ariths)
  also have "unat (ucast w * ucast h :: size_t) = (unat w * unat h) mod 2 ^ 64"
    by (simp add: unat_word_ariths unat_ucast_u32)
  finally show ?thesis by (simp add: mod_mult_left_eq)
qed

subsection \<open>C8: byte sizes\<close>

text \<open>
  C8: the byte size \<open>get_frame_size\<close> computes is width times height times 4 for the two
  packed 4-byte layouts, width times height times 2 for the two chroma-subsampled layouts,
  and 0 for every other tag. The product is formed in \<^verbatim>\<open>size_t\<close> after the width has been
  widened to it: as a number it is the product modulo \<open>2 ^ 64\<close>, which is the product
  itself whenever that is below \<open>2 ^ 64\<close>.
\<close>

theorem get_frame_size_formula:
  "(frametype b = CAMERA_FRAMETYPE_RGB8888 \<or> frametype b = CAMERA_FRAMETYPE_BGR8888 \<longrightarrow>
      get_frame_size b = ucast (fd_width (framedesc b)) * ucast (fd_height (framedesc b)) * 4
      \<and> unat (get_frame_size b)
          = (unat (fd_width (framedesc b)) * unat (fd_height (framedesc b)) * 4) mod 2 ^ 64
      \<and> (unat (fd_width (framedesc b)) * unat (fd_height (framedesc b)) * 4 < 2 ^ 64 \<longrightarrow>
           unat (get_frame_size b)
             = unat (fd_width (framedesc b)) * unat (fd_height (framedesc b)) * 4))
   \<and> (frametype b = CAMERA_FRAMETYPE_YCBYCR \<or> frametype b = CAMERA_FRAMETYPE_CBYCRY \<longrightarrow>
      get_frame_size b = ucast (fd_width (framedesc b)) * ucast (fd_height (framedesc b)) * 2
      \<and> unat (get_frame_size b)
          = (unat (fd_width (framedesc b)) * unat (fd_height (framedesc b)) * 2) mod 2 ^ 64
      \<and> (unat (fd_width (framedesc b)) * unat (fd_height (framedesc b)) * 2 < 2 ^ 64 \<longrightarrow>
           unat (get_frame_size b)
             = unat (fd_width (framedesc b)) * unat (fd_height (framedesc b)) * 2))
   \<and> ((\<exists>t. frametype b = CAMERA_FRAMETYPE_OTHER t) \<longrightarrow> get_frame_size b = 0)"
proof -
  have four: "unat (ucast (fd_width (framedesc b)) * ucast (fd_height (framedesc b)) * (4 :: size_t))
          = (unat (fd_width (framedesc b)) * unat (fd_height (framedesc b)) * 4) mod 2 ^ 64"
    using unat_size_product[of "fd_width (framedesc b)" "fd_height (framedesc b)" 4] by simp
  have two: "unat (ucast (fd_width (framedesc b)) * ucast (fd_height (framedesc b)) * (2 :: size_t))
          = (unat (fd_width (framedesc b)) * unat (fd_height (framedesc b)) * 2) mod 2 ^ 64"
    using unat_size_product[of "fd_width (framedesc b)" "fd_height (framedesc b)" 2] by simp
  show ?thesis
    by (cases "frametype b") (simp_all add: get_frame_size_def four two)
qed

theorem get_frame_size_formula_witness:
  "frametype (sample_frame 7) = CAMERA_FRAMETYPE_RGB8888
   \<and> unat (fd_width (framedesc (sample_frame 7))) * unat (fd_height (framedesc (sample_frame 7))) * 4 < 2 ^ 64
   \<and> unat (get_frame_size (sample_frame 7)) = 4
   \<and> frametype unsupported_frame = CAMERA_FRAMETYPE_OTHER 99
   \<and> get_frame_size unsupported_frame = 0
   \<and> unat (get_frame_size huge_frame) = 0"
  using get_frame_size_formula[of "sample_frame 7"] get_frame_size_formula[of unsupported_frame]
    get_frame_size_formula[of huge_frame]
  by (simp add: sample_frame_def unsupported_frame_def huge_frame_def)

lemma shm_open_creat_same [simp]: "\<exists>d. shm_open_creat n s n = Some d"
  by (simp add: shm_open_creat_def split: option.splits)

lemma shm_open_creat_other [simp]: "m \<noteq> n \<Longrightarrow> shm_open_creat n s m = s m"
  by (simp add: shm_open_creat_def split: option.splits)

lemma ftruncate_shm_same [simp]: "\<exists>d. ftruncate_shm n k (shm_open_creat n s) n = Some d"
  by (simp add: ftruncate_shm_def shm_open_creat_def split: option.splits)

lemma ftruncate_shm_other [simp]: "m \<noteq> n \<Longrightarrow> ftruncate_shm n k s m = s m"
  by (simp add: ftruncate_shm_def split: option.splits)

lemma store_frame_opens:
  assumes "shm_open_ok c" "fits b"
  shows "\<exists>g'. store_frame c b g = Some g'
           \<and> shm g' (frame_shm_name ((buffer_head (evict_oldest g) + buffer_count (evict_oldest g))
                                       mod MAX_FRAMES)) \<noteq> None"
  using assms
  by (simp add: store_frame_def Let_def fits_def memcpy_from_def split: option.splits)

lemma store_frame_keeps:
  assumes "store_frame c b g = Some g'"
  shows "sock_sent g' = sock_sent g \<and> metadata_mapped g' = metadata_mapped g
         \<and> console g' = console g \<and> latest_mapped g' = latest_mapped g
         \<and> latest_shm_name g' = latest_shm_name g \<and> latest_size g' = latest_size g"
  using assms
  by (auto simp: store_frame_def Let_def evict_oldest_def split: if_splits option.splits)

lemma store_frame_returns: "fits b \<Longrightarrow> \<exists>g'. store_frame c b g = Some g'"
  by (simp add: store_frame_def Let_def fits_def memcpy_from_def split: option.splits)

lemma publish_latest_returns: "fits b \<Longrightarrow> \<exists>g'. publish_latest c b g = Some g'"
  by (simp add: publish_latest_def Let_def fits_def memcpy_from_def split: option.splits)

lemma publish_latest_keeps:
  assumes "publish_latest c b g = Some g'"
  shows "sock_sent g' = sock_sent g \<and> metadata_mapped g' = metadata_mapped g
         \<and> console g' = console g"
  using assms
  by (auto simp: publish_latest_def Let_def split: if_splits option.splits)

lemma update_latest_name_keeps:
  "sock_sent (update_latest_name c g) = sock_sent g
   \<and> metadata_mapped (update_latest_name c g) = metadata_mapped g
   \<and> console (update_latest_name c g) = console g"
  by (simp add: update_latest_name_def Let_def split: option.splits)

lemma update_metadata_keeps:
  "sock_sent (update_metadata b g) = sock_sent g
   \<and> console (update_metadata b g) = console g
   \<and> shm (update_metadata b g) = shm g
   \<and> vm (update_metadata b g) = vm g"
  by (simp add: update_metadata_def split: prod.splits)

lemma encode_and_stream_closed:
  "\<not> stream_gate b \<Longrightarrow> encode_and_stream e b g = Some g"
  by (simp add: encode_and_stream_def split: prod.splits)

lemma other_facts:
  assumes "frametype b = CAMERA_FRAMETYPE_OTHER t"
  shows "get_frame_size b = 0" "frame_dims b = (0, 0, 0)" "\<not> stream_gate b" "fits b"
    "channel_stats b = Some (Frametype_not_supported (CAMERA_FRAMETYPE_OTHER t))"
  using assms
  by (simp_all add: get_frame_size_def frame_dims_def stream_gate_def fits_def channel_stats_def)

subsection \<open>C2: frames with an unsupported tag\<close>

text \<open>
  C2, as the specification states it: a frame whose tag is not one of the four supported
  ones causes no segment to be allocated and leaves the metadata record as it was. In the
  program only the statistics switch returns early. After one RGB frame (metadata: RGB8888,
  1 by 1, size 4; no segment \<^verbatim>\<open>/camera_frame_1\<close>), a frame with tag 99 whose two zero-length
  mappings fail overwrites the metadata with tag 99 and zeros, and leaves an empty segment
  \<^verbatim>\<open>/camera_frame_1\<close> behind.
\<close>

theorem unsupported_frame_not_skipped:
  "processCameraData env_ok (sample_frame 1) initial_globals = Some after_one_frame
   \<and> metadata_mapped after_one_frame
       = \<lparr>m_frametype = CAMERA_FRAMETYPE_RGB8888, m_width = 1, m_height = 1, m_size = 4\<rparr>
   \<and> shm after_one_frame ''/camera_frame_1'' = None
   \<and> get_frame_size unsupported_frame = 0
   \<and> map_option metadata_mapped (processCameraData env_map_fails unsupported_frame after_one_frame)
       = Some \<lparr>m_frametype = CAMERA_FRAMETYPE_OTHER 99, m_width = 0, m_height = 0, m_size = 0\<rparr>
   \<and> map_option (\<lambda>g. shm g ''/camera_frame_1'')
        (processCameraData env_map_fails unsupported_frame after_one_frame) = Some (Some [])"
proof -
  have "processCameraData env_ok (sample_frame 1) initial_globals \<noteq> None"
    by code_simp
  then have "processCameraData env_ok (sample_frame 1) initial_globals = Some after_one_frame"
    by (auto simp: after_one_frame_def)
  moreover have "metadata_mapped after_one_frame
       = \<lparr>m_frametype = CAMERA_FRAMETYPE_RGB8888, m_width = 1, m_height = 1, m_size = 4\<rparr>"
    by code_simp
  moreover have "shm after_one_frame ''/camera_frame_1'' = None"
    by code_simp
  moreover have "get_frame_size unsupported_frame = 0"
    by code_simp
  moreover have "map_option metadata_mapped (processCameraData env_map_fails unsupported_frame after_one_frame)
       = Some \<lparr>m_frametype = CAMERA_FRAMETYPE_OTHER 99, m_width = 0, m_height = 0, m_size = 0\<rparr>"
    by code_simp
  moreover have "map_option (\<lambda>g. shm g ''/camera_frame_1'')
        (processCameraData env_map_fails unsupported_frame after_one_frame) = Some (Some [])"
    by code_simp
  ultimately show ?thesis by simp
qed

text \<open>
  C2, amended: for a frame whose tag is not one of the four supported ones the byte size
  is 0, no statistics are computed (the callback prints the unsupported-frametype line and
  returns) and nothing is written to the socket. The ring push and the latest-frame
  publication are still attempted with size 0: wherever \<^verbatim>\<open>shm_open\<close> succeeds, the segment
  exists afterwards. The metadata record is overwritten with the frame's tag, width 0,
  height 0 and size 0.
\<close>

theorem unsupported_frame_effects:
  assumes "frametype b = CAMERA_FRAMETYPE_OTHER t"
  shows "get_frame_size b = 0
     \<and> channel_stats b = Some (Frametype_not_supported (CAMERA_FRAMETYPE_OTHER t))
     \<and> (\<exists>g'. processCameraData e b g = Some g'
           \<and> sock_sent g' = sock_sent g
           \<and> console g' = Some (Frametype_not_supported (CAMERA_FRAMETYPE_OTHER t))
           \<and> metadata_mapped g'
               = \<lparr>m_frametype = CAMERA_FRAMETYPE_OTHER t, m_width = 0, m_height = 0, m_size = 0\<rparr>)
     \<and> (shm_open_ok c \<longrightarrow>
          (\<exists>g1. store_frame c b g = Some g1
             \<and> shm g1 (frame_shm_name ((buffer_head (evict_oldest g) + buffer_count (evict_oldest g))
                                        mod MAX_FRAMES)) \<noteq> None))
     \<and> (shm_open_ok c \<longrightarrow>
          (\<exists>g2. publish_latest c b g = Some g2 \<and> shm g2 ''/camera_latest'' \<noteq> None))"
proof -
  note o = other_facts[OF assms]
  obtain g1 where g1: "store_frame (frame_calls e) b g = Some g1"
    using store_frame_returns[OF o(4)] by blast
  obtain g2 where g2: "publish_latest (latest_calls e) b g1 = Some g2"
    using publish_latest_returns[OF o(4)] by blast
  let ?g3 = "update_latest_name (name_calls e) (update_metadata b g2)"
  have run: "processCameraData e b g
               = Some (?g3\<lparr>console := Some (Frametype_not_supported (CAMERA_FRAMETYPE_OTHER t))\<rparr>)"
    by (simp add: processCameraData_def g1 g2 encode_and_stream_closed[OF o(3)] o(5))
  have sock: "sock_sent ?g3 = sock_sent g"
    using store_frame_keeps[OF g1] publish_latest_keeps[OF g2]
    by (simp add: update_latest_name_keeps update_metadata_keeps)
  have meta: "metadata_mapped ?g3
               = \<lparr>m_frametype = CAMERA_FRAMETYPE_OTHER t, m_width = 0, m_height = 0, m_size = 0\<rparr>"
    by (simp add: update_latest_name_keeps update_metadata_def o assms)
  have pub: "shm_open_ok c \<longrightarrow>
          (\<exists>g2. publish_latest c b g = Some g2 \<and> shm g2 ''/camera_latest'' \<noteq> None)"
    using o(4)
    by (simp add: publish_latest_def Let_def fits_def memcpy_from_def split: option.splits)
  show ?thesis
    using o(1,5) run sock meta pub store_frame_opens[OF _ o(4), of c g] by simp
qed

theorem unsupported_frame_effects_witness:
  "frametype unsupported_frame = CAMERA_FRAMETYPE_OTHER 99
   \<and> shm_open_ok mmap_fails
   \<and> get_frame_size unsupported_frame = 0
   \<and> (\<exists>g'. processCameraData env_map_fails unsupported_frame after_one_frame = Some g'
         \<and> sock_sent g' = sock_sent after_one_frame
         \<and> console g' = Some (Frametype_not_supported (CAMERA_FRAMETYPE_OTHER 99))
         \<and> metadata_mapped g'
             = \<lparr>m_frametype = CAMERA_FRAMETYPE_OTHER 99, m_width = 0, m_height = 0, m_size = 0\<rparr>)
   \<and> (\<exists>g1. store_frame mmap_fails unsupported_frame after_one_frame = Some g1
         \<and> shm g1 ''/camera_frame_1'' \<noteq> None)"
proof -
  have t: "frametype unsupported_frame = CAMERA_FRAMETYPE_OTHER 99"
    by (simp add: unsupported_frame_def)
  have c: "shm_open_ok mmap_fails" by (simp add: mmap_fails_def)
  have n: "frame_shm_name ((buffer_head (evict_oldest after_one_frame)
                            + buffer_count (evict_oldest after_one_frame)) mod MAX_FRAMES)
             = ''/camera_frame_1''"
    by code_simp
  show ?thesis
    using unsupported_frame_effects[OF t, of env_map_fails after_one_frame mmap_fails] t c
    unfolding n by simp
qed

subsection \<open>C6: a publication that fails\<close>

text \<open>
  C6, as the specification states it: a publish whose open, truncate or map step fails
  leaves either the previous publication in place or the slot absent, and no third state.
  After one publication (\<^verbatim>\<open>/camera_latest\<close> holds the bytes 1, 1, 1, 255), a publish whose
  \<^verbatim>\<open>mmap\<close> fails leaves a segment \<^verbatim>\<open>/camera_latest\<close> of four zero bytes: the previous
  publication is gone, the name still resolves, and no frame data is behind it.
\<close>

theorem publish_failure_third_state:
  "publish_latest calls_ok (sample_frame 1) initial_globals = Some published_once
   \<and> shm published_once ''/camera_latest'' = Some [1, 1, 1, 255]
   \<and> push_failed mmap_fails
   \<and> map_option (\<lambda>g. shm g ''/camera_latest'')
        (publish_latest mmap_fails (sample_frame 2) published_once) = Some (Some [0, 0, 0, 0])"
proof -
  have "publish_latest calls_ok (sample_frame 1) initial_globals \<noteq> None"
    by code_simp
  then have "publish_latest calls_ok (sample_frame 1) initial_globals = Some published_once"
    by (auto simp: published_once_def)
  moreover have "shm published_once ''/camera_latest'' = Some [1, 1, 1, 255]"
    by code_simp
  moreover have "push_failed mmap_fails"
    by (simp add: push_failed_def mmap_fails_def)
  moreover have "map_option (\<lambda>g. shm g ''/camera_latest'')
        (publish_latest mmap_fails (sample_frame 2) published_once) = Some (Some [0, 0, 0, 0])"
    by code_simp
  ultimately show ?thesis by simp
qed

text \<open>
  C6, amended: a publish in which open, truncate or map fails returns (the callback goes
  on) and writes neither the metadata nor the socket, and no segment other than
  \<^verbatim>\<open>/camera_latest\<close>. A previous publication the program tracks (\<open>latest_mapped\<close> not null)
  is always torn down before the failing step, its pages unmapped and its name unlinked:
  afterwards the slot is absent if open failed, an empty segment if truncate failed, and a
  zero-filled segment of the new frame's size if map failed. When nothing was tracked, a
  segment of that name that already exists stays in place if open fails, is kept as it is
  if truncate fails, and is resized if map fails.
\<close>

theorem publish_latest_failure:
  assumes "push_failed c" and "latest_inv g"
  shows "\<exists>g'. publish_latest c b g = Some g'
           \<and> latest_inv g'
           \<and> metadata_mapped g' = metadata_mapped g \<and> sock_sent g' = sock_sent g
           \<and> (\<forall>n. n \<noteq> ''/camera_latest'' \<longrightarrow> shm g' n = shm g n)
           \<and> (\<forall>p i. latest_mapped g = MapAddr p \<and> i < page_count (unat (latest_size g))
                  \<longrightarrow> vm g' (p + i) = None)
           \<and> (latest_mapped g \<noteq> NullPtr \<longrightarrow>
                shm g' ''/camera_latest'' =
                  (if \<not> shm_open_ok c then None
                   else if \<not> ftruncate_ok c then Some []
                   else Some (replicate (unat (get_frame_size b)) 0)))
           \<and> (latest_mapped g = NullPtr \<longrightarrow>
                shm g' ''/camera_latest'' =
                  (if \<not> shm_open_ok c then shm g ''/camera_latest''
                   else if \<not> ftruncate_ok c
                   then Some (case shm g ''/camera_latest'' of None \<Rightarrow> [] | Some d \<Rightarrow> d)
                   else Some (case shm g ''/camera_latest'' of
                                None \<Rightarrow> replicate (unat (get_frame_size b)) 0
                              | Some d \<Rightarrow> take (unat (get_frame_size b)) d
                                          @ replicate (unat (get_frame_size b) - length d) 0)))"
proof (cases "latest_mapped g = NullPtr")
  case True
  then show ?thesis
    using assms
    by (auto simp: publish_latest_def Let_def push_failed_def latest_inv_def mmap_shared_def
        shm_open_creat_def ftruncate_shm_def split: option.splits)
next
  case False
  then have n: "latest_shm_name g = Some ''/camera_latest''"
    using assms(2) by (simp add: latest_inv_def)
  show ?thesis
    using assms(1) False n
    by (auto simp: publish_latest_def Let_def push_failed_def latest_inv_def shm_unlink_def
        mmap_shared_def munmap_def shm_open_creat_def ftruncate_shm_def split: option.splits)
qed

theorem publish_latest_failure_witness:
  "push_failed mmap_fails \<and> latest_inv published_once
   \<and> latest_mapped published_once = MapAddr 32
   \<and> 0 < page_count (unat (latest_size published_once))
   \<and> vm published_once 32 = Some [1, 1, 1, 255]
   \<and> (\<exists>g'. publish_latest mmap_fails (sample_frame 2) published_once = Some g'
          \<and> sock_sent g' = sock_sent published_once
          \<and> vm g' 32 = None
          \<and> shm g' ''/camera_latest'' = Some [0, 0, 0, 0])"
proof -
  have f: "push_failed mmap_fails" by (simp add: push_failed_def mmap_fails_def)
  have i: "latest_inv published_once" by code_simp
  have m: "latest_mapped published_once = MapAddr 32" by code_simp
  have k: "0 < page_count (unat (latest_size published_once))" by code_simp
  have v: "vm published_once 32 = Some [1, 1, 1, 255]" by code_simp
  have s: "replicate (unat (get_frame_size (sample_frame 2))) (0 :: u8) = [0, 0, 0, 0]"
    by code_simp
  from publish_latest_failure[OF f i, of "sample_frame 2"] obtain g' where
    g': "publish_latest mmap_fails (sample_frame 2) published_once = Some g'"
        "sock_sent g' = sock_sent published_once"
        "\<forall>p i. latest_mapped published_once = MapAddr p
                \<and> i < page_count (unat (latest_size published_once))
                  \<longrightarrow> vm g' (p + i) = None"
        "latest_mapped published_once \<noteq> NullPtr \<longrightarrow>
                shm g' ''/camera_latest'' =
                  (if \<not> shm_open_ok mmap_fails then None
                   else if \<not> ftruncate_ok mmap_fails then Some []
                   else Some (replicate (unat (get_frame_size (sample_frame 2))) 0))"
    by blast
  from g'(4) m have c: "shm g' ''/camera_latest'' = Some [0, 0, 0, 0]"
    unfolding s by (simp add: mmap_fails_def)
  from g'(3) m k have "vm g' (32 + 0) = None" by blast
  then have u: "vm g' 32 = None" by simp
  from f i m k v g'(1,2) c u show ?thesis by simp
qed

section \<open>Loops\<close>

lemma for_loop_done: "\<not> i < n \<Longrightarrow> for_loop i n body s = Some s"
  by (simp add: for_loop.simps)

lemma for_loop_step:
  "i < n \<Longrightarrow> for_loop i n body s =
     (case body i s of None \<Rightarrow> None | Some s' \<Rightarrow> for_loop (Suc i) n body s')"
  by (subst for_loop.simps) (simp split: option.splits)

text \<open>The loop rule: an invariant that every iteration re-establishes holds at the end,
  and the loop returns.\<close>

lemma for_loop_rule:
  assumes "P i s" and "i \<le> n"
    and "\<And>k t. i \<le> k \<Longrightarrow> k < n \<Longrightarrow> P k t \<Longrightarrow> \<exists>t'. body k t = Some t' \<and> P (Suc k) t'"
  shows "\<exists>s'. for_loop i n body s = Some s' \<and> P n s'"
  using assms
proof (induction "n - i" arbitrary: i s)
  case 0
  then show ?case by (simp add: for_loop_done)
next
  case (Suc d)
  then have lt: "i < n" by simp
  from Suc.prems(3)[OF le_refl lt Suc.prems(1)] obtain t where
    t: "body i s = Some t" "P (Suc i) t" by blast
  have "\<exists>s'. for_loop (Suc i) n body t = Some s' \<and> P n s'"
  proof (rule Suc.hyps(1))
    show "d = n - Suc i" using Suc.hyps(2) by simp
    show "P (Suc i) t" by (rule t(2))
    show "Suc i \<le> n" using lt by simp
    show "\<exists>t'. body k u = Some t' \<and> P (Suc k) t'" if "Suc i \<le> k" "k < n" "P k u" for k u
      using Suc.prems(3)[of k u] that by simp
  qed
  then show ?case using lt t(1) by (simp add: for_loop_step)
qed

text \<open>How many offsets below \<open>n\<close> are congruent \<open>c\<close> modulo 4.\<close>

lemma count_step:
  assumes "c < 4"
  shows "(Suc n + 3 - c) div 4 = (if n mod 4 = c then Suc ((n + 3 - c) div 4) else (n + 3 - c) div 4)"
proof -
  obtain m r where n: "n = 4 * m + r" and r: "r < 4"
    by (metis mod_less_divisor mult_div_mod_eq zero_less_numeral)
  have rm: "n mod 4 = r" using n r by simp
  show ?thesis
  proof (cases "r = c")
    case True
    have "(Suc n + 3 - c) div 4 = (4 * (m + 1)) div 4" using n True by simp
    moreover have "(n + 3 - c) div 4 = (4 * m + 3) div 4" using n True by simp
    ultimately show ?thesis using rm True by simp
  next
    case False
    show ?thesis
    proof (cases "r < c")
      case True
      then have "Suc n + 3 - c = 4 * m + (r + 4 - c)" "n + 3 - c = 4 * m + (r + 3 - c)"
        using n assms by simp_all
      moreover have "r + 4 - c < 4" "r + 3 - c < 4" using True assms by simp_all
      ultimately have "(Suc n + 3 - c) div 4 = m" "(n + 3 - c) div 4 = m" by simp_all
      then show ?thesis using rm False by simp
    next
      case ge: False
      with False have gt: "c < r" by simp
      then have "Suc n + 3 - c = 4 * (m + 1) + (r - c)" "n + 3 - c = 4 * (m + 1) + (r - c - 1)"
        using n r by simp_all
      moreover have "r - c < 4" "r - c - 1 < 4" using r by simp_all
      ultimately have "(Suc n + 3 - c) div 4 = m + 1" "(n + 3 - c) div 4 = m + 1"
        by (simp_all only: div_mult_self4 div_less add_0_right zero_less_numeral) 
      then show ?thesis using rm False by simp
    qed
  qed
qed

lemma count_pos:
  fixes n c :: nat
  assumes "c < 4" "n mod 4 = c"
  shows "4 * ((n + 3 - c) div 4) + c = n"
proof -
  have n: "n = 4 * (n div 4) + c" using assms(2) by (metis mult_div_mod_eq)
  then have "n + 3 - c = 4 * (n div 4) + 3" by simp
  then have "(n + 3 - c) div 4 = n div 4" by simp
  then show ?thesis using n by simp
qed

subsection \<open>The channel arithmetic, on natural numbers\<close>

lemma unat_of_nat_u32: "i < 2 ^ 32 \<Longrightarrow> unat (of_nat i :: u32) = i"
  by (simp add: unat_of_nat)

lemma u32_eq_iff: "(a :: u32) = b \<longleftrightarrow> unat a = unat b"
  by (rule word_unat_eq_iff)

lemma rgb8888_chan_nat:
  assumes "i < 2 ^ 32"
  shows "map_option unat (rgb8888_chan (of_nat i)) = (if i mod 4 = 3 then None else Some (i mod 4))"
proof -
  have u: "unat (of_nat i mod 4 :: u32) = i mod 4"
    using assms by (simp add: unat_mod unat_of_nat_u32)
  then have "(of_nat i mod 4 :: u32) = 3 \<longleftrightarrow> i mod 4 = 3"
    by (simp add: u32_eq_iff)
  then show ?thesis using u by (simp add: rgb8888_chan_def Let_def)
qed

lemma bgr_nat: 
  fixes i w :: nat
  assumes "i < 4 * w" "i mod 4 \<noteq> 3"
  shows "(4 * w - i + 3) mod 4 - 1 = 2 - i mod 4" "(4 * w - i + 3) mod 4 \<noteq> 0"
proof -
  obtain q r where i: "i = 4 * q + r" and r: "r < 4"
    by (metis mod_less_divisor mult_div_mod_eq zero_less_numeral)
  have rm: "i mod 4 = r" using i r by simp
  have q: "q < w" using assms(1) i by simp
  then obtain d where w: "w = q + 1 + d" by (metis Suc_eq_plus1 less_iff_Suc_add add_Suc_right add.commute add.left_commute)
  have "4 * w - i + 3 = 4 * (d + 1) + (3 - r)" using i r w by simp
  then have m: "(4 * w - i + 3) mod 4 = (3 - r) mod 4" by (simp only: mod_mult_self4)
  have "r < 3" using r rm assms(2) by simp
  then have "(3 - r) mod 4 = 3 - r" by simp
  with m rm \<open>r < 3\<close> show "(4 * w - i + 3) mod 4 - 1 = 2 - i mod 4" "(4 * w - i + 3) mod 4 \<noteq> 0"
    by simp_all
qed

lemma bgr8888_chan_nat:
  assumes "4 * unat w < 2 ^ 32" "i < 4 * unat w"
  shows "map_option unat (bgr8888_chan w (of_nat i)) = (if i mod 4 = 3 then None else Some (2 - i mod 4))"
proof -
  have i32: "i < 2 ^ 32" using assms by simp
  have ui: "unat (of_nat i :: u32) = i" using i32 by (rule unat_of_nat_u32)
  have u: "unat (of_nat i mod 4 :: u32) = i mod 4"
    by (simp add: unat_mod ui)
  then have c3: "(of_nat i mod 4 :: u32) = 3 \<longleftrightarrow> i mod 4 = 3"
    by (simp add: u32_eq_iff)
  have w4: "unat (4 * w) = 4 * unat w"
    using assms(1) unat_mult_lem[of 4 w] by simp
  show ?thesis
  proof (cases "i mod 4 = 3")
    case True
    then show ?thesis using c3 by (simp add: bgr8888_chan_def)
  next
    case False
    have le: "(of_nat i :: u32) \<le> 4 * w"
      using assms(2) by (simp add: word_le_nat_alt ui w4)
    have s: "unat (4 * w - of_nat i) = 4 * unat w - i"
      using le by (simp add: unat_sub ui w4)
    have "4 * unat w - i + 3 < 2 ^ 32"
    proof -
      have "4 * unat w \<le> 2 ^ 32 - 4"
      proof -
        have "unat w < 2 ^ 30" using assms(1) by simp
        then show ?thesis by simp
      qed
      then show ?thesis by simp
    qed
    then have a: "unat (4 * w - of_nat i + 3) = 4 * unat w - i + 3"
      using unat_add_lem[of "4 * w - of_nat i" 3] s by simp
    have m: "unat ((4 * w - of_nat i + 3) mod 4) = (4 * unat w - i + 3) mod 4"
      by (simp add: unat_mod a)
    from bgr_nat[OF assms(2) False]
    have n: "(4 * unat w - i + 3) mod 4 - 1 = 2 - i mod 4" "(4 * unat w - i + 3) mod 4 \<noteq> 0" .
    have "1 \<le> (4 * w - of_nat i + 3) mod 4"
      using n(2) m by (simp add: word_le_nat_alt)
    then have "unat ((4 * w - of_nat i + 3) mod 4 - 1) = (4 * unat w - i + 3) mod 4 - 1"
      using m by (simp add: unat_sub)
    then show ?thesis using False c3 n(1) by (simp add: bgr8888_chan_def)
  qed
qed

lemma ycbycr_chan_nat:
  assumes "i < 2 ^ 32"
  shows "map_option unat (ycbycr_chan (of_nat i))
           = Some (if i mod 2 = 0 then 0 else if i mod 4 = 1 then 1 else 2)"
proof -
  have ui: "unat (of_nat i :: u32) = i" using assms by (rule unat_of_nat_u32)
  have u: "unat (of_nat i mod 2 :: u32) = i mod 2"
    by (simp add: unat_mod ui)
  then have c1: "(of_nat i mod 2 :: u32) = 1 \<longleftrightarrow> i mod 2 = 1"
    by (simp add: u32_eq_iff)
  show ?thesis
  proof (cases "i mod 2 = 1")
    case False
    then have "i mod 2 = 0" by simp
    then show ?thesis using c1 u by (simp add: ycbycr_chan_def Let_def)
  next
    case True
    then have pos: "1 \<le> i" by (cases i) simp_all
    then have "(1 :: u32) \<le> of_nat i" by (simp add: word_le_nat_alt ui)
    then have s: "unat (of_nat i - 1 :: u32) = i - 1" by (simp add: unat_sub ui)
    have d: "unat ((of_nat i - 1 :: u32) mod 4 div 2) = (i - 1) mod 4 div 2"
      by (simp add: unat_div unat_mod s)
    have "(i - 1) mod 4 div 2 + 1 < 2 ^ 32"
    proof -
      have "(i - 1) mod 4 div 2 \<le> 1" by simp
      then show ?thesis by simp
    qed
    then have a: "unat ((of_nat i - 1 :: u32) mod 4 div 2 + 1) = (i - 1) mod 4 div 2 + 1"
      using unat_add_lem[of "(of_nat i - 1 :: u32) mod 4 div 2" 1] d by simp
    obtain q r where i: "i = 4 * q + r" and r: "r < 4"
      by (metis mod_less_divisor mult_div_mod_eq zero_less_numeral)
    have rm: "i mod 4 = r" using i r by simp
    have "i = 2 * (2 * q) + r" using i by simp
    then have "i mod 2 = r mod 2" by (simp only: mod_mult_self4)
    then have "r = 1 \<or> r = 3" using True r by (cases "r = 0"; cases "r = 2") auto
    then have "(i - 1) mod 4 div 2 + 1 = (if i mod 4 = 1 then 1 else 2)"
    proof
      assume "r = 1" then show ?thesis using i by simp
    next
      assume r3: "r = 3"
      then have "i - 1 = 4 * q + 2" using i by simp
      then have "(i - 1) mod 4 = 2 mod 4" by (simp only: mod_mult_self4)
      then show ?thesis using rm r3 by simp
    qed
    then show ?thesis using True c1 a by (simp add: ycbycr_chan_def Let_def)
  qed
qed

lemma cbycry_chan_nat:
  assumes "i + 1 < 2 ^ 32"
  shows "map_option unat (cbycry_chan (of_nat i))
           = Some (if i mod 2 = 1 then 0 else if i mod 4 = 0 then 1 else 2)"
proof -
  have ui: "unat (of_nat i :: u32) = i" using assms by (simp add: unat_of_nat_u32)
  have s: "unat (of_nat i + 1 :: u32) = i + 1"
    using unat_add_lem[of "of_nat i :: u32" 1] assms ui by simp
  have u: "unat ((of_nat i + 1) mod 2 :: u32) = (i + 1) mod 2"
    by (simp add: unat_mod s)
  then have c1: "((of_nat i + 1) mod 2 :: u32) = 1 \<longleftrightarrow> (i + 1) mod 2 = 1"
    by (simp add: u32_eq_iff)
  obtain q r where i: "i = 4 * q + r" and r: "r < 4"
    by (metis mod_less_divisor mult_div_mod_eq zero_less_numeral)
  have rm: "i mod 4 = r" using i r by simp
  have "i = 2 * (2 * q) + r" using i by simp
  then have r2: "i mod 2 = r mod 2" by (simp only: mod_mult_self4)
  show ?thesis
  proof (cases "i mod 2 = 1")
    case True
    then have "(i + 1) mod 2 = 0" by (simp add: mod_Suc)
    then show ?thesis using True c1 u by (simp add: cbycry_chan_def Let_def)
  next
    case False
    then have e: "i mod 2 = 0" by simp
    then have o: "(i + 1) mod 2 = 1" by (simp add: mod_Suc)
    have m: "unat ((of_nat i + 1 :: u32) mod 4) = (i + 1) mod 4"
      by (simp add: unat_mod s)
    have "(i + 1) mod 4 + 1 < 2 ^ 32"
    proof -
      have "(i + 1) mod 4 < 4" by simp
      then show ?thesis by simp
    qed
    then have a: "unat ((of_nat i + 1 :: u32) mod 4 + 1) = (i + 1) mod 4 + 1"
      using unat_add_lem[of "(of_nat i + 1 :: u32) mod 4" 1] m by simp
    have d: "unat (((of_nat i + 1 :: u32) mod 4 + 1) div 2) = ((i + 1) mod 4 + 1) div 2"
      by (simp add: unat_div a)
    have "r = 0 \<or> r = 2" using e r2 r by (cases "r = 1"; cases "r = 3") auto
    then have "((i + 1) mod 4 + 1) div 2 = (if i mod 4 = 0 then 1 else 2)"
    proof
      assume "r = 0" then show ?thesis using i by simp
    next
      assume r2: "r = 2"
      then have "i + 1 = 4 * q + 3" using i by simp
      then have "(i + 1) mod 4 = 3 mod 4" by (simp only: mod_mult_self4)
      then show ?thesis using rm r2 by simp
    qed
    then show ?thesis using False e o c1 d by (simp add: cbycry_chan_def Let_def)
  qed
qed

section \<open>Channel statistics\<close>

lemma row_sum_Suc:
  "row_sum chan src base (Suc n) c =
     row_sum chan src base n c + (if chan n = Some c then unat (src ! (base + n)) else 0)"
  by (simp add: row_sum_def)

lemma row_sum_0 [simp]: "row_sum chan src base 0 c = 0"
  by (simp add: row_sum_def)

lemma line_loop:
  assumes len: "length avg = 3" and inb: "base + n \<le> length src"
    and rng: "\<And>i ch. i < n \<Longrightarrow> chan_of (of_nat i) = Some ch \<Longrightarrow> unat ch < 3"
  shows "\<exists>avg'. for_loop 0 n
            (\<lambda>i a. case chan_of (of_nat i) of
                      None \<Rightarrow> Some a
                    | Some chan \<Rightarrow> add_sample src (base + i) (unat chan) a) avg = Some avg'
          \<and> length avg' = 3
          \<and> (\<forall>c<3. avg' ! c = avg ! c + row_sum (\<lambda>i. map_option unat (chan_of (of_nat i))) src base n c)"
proof (rule for_loop_rule[where P = "\<lambda>k t. length t = 3
          \<and> (\<forall>c<3. t ! c = avg ! c + row_sum (\<lambda>i. map_option unat (chan_of (of_nat i))) src base k c)"])
  show "length avg = 3 \<and> (\<forall>c<3. avg ! c = avg ! c + row_sum (\<lambda>i. map_option unat (chan_of (of_nat i))) src base 0 c)"
    using len by simp
  show "0 \<le> n" by simp
next
  fix k t
  assume k: "0 \<le> k" "k < n"
    and inv: "length t = 3 \<and> (\<forall>c<3. t ! c = avg ! c + row_sum (\<lambda>i. map_option unat (chan_of (of_nat i))) src base k c)"
  show "\<exists>t'. (case chan_of (of_nat k) of None \<Rightarrow> Some t
                | Some chan \<Rightarrow> add_sample src (base + k) (unat chan) t) = Some t'
          \<and> (length t' = 3 \<and> (\<forall>c<3. t' ! c = avg ! c + row_sum (\<lambda>i. map_option unat (chan_of (of_nat i))) src base (Suc k) c))"
  proof (cases "chan_of (of_nat k)")
    case None
    then show ?thesis using inv by (simp add: row_sum_Suc)
  next
    case (Some ch)
    have c3: "unat ch < 3" using rng[OF k(2) Some] .
    have pos: "base + k < length src" using k(2) inb by simp
    have "add_sample src (base + k) (unat ch) t = Some (t[unat ch := t ! unat ch + unat (src ! (base + k))])"
      using c3 pos inv by (simp add: add_sample_def)
    moreover have "\<forall>c<3. (t[unat ch := t ! unat ch + unat (src ! (base + k))]) ! c
          = avg ! c + row_sum (\<lambda>i. map_option unat (chan_of (of_nat i))) src base (Suc k) c"
      using inv c3 Some by (auto simp: row_sum_Suc nth_list_update)
    ultimately show ?thesis using Some inv by simp
  qed
qed

lemma sum_lines_total:
  assumes nowrap: "\<And>y. y < unat height \<Longrightarrow> unat (of_nat y * stride :: u32) = y * unat stride"
    and inb: "\<And>y. y < unat height \<Longrightarrow> y * unat stride + unat row_bytes \<le> length src"
    and rng: "\<And>i ch. i < unat row_bytes \<Longrightarrow> chan_of (of_nat i) = Some ch \<Longrightarrow> unat ch < 3"
  shows "\<exists>avg. sum_lines chan_of row_bytes src height stride = Some avg
          \<and> length avg = 3
          \<and> (\<forall>c<3. avg ! c =
                (\<Sum>y\<leftarrow>[0..<unat height].
                   row_sum (\<lambda>i. map_option unat (chan_of (of_nat i))) src (y * unat stride) (unat row_bytes) c))"
  unfolding sum_lines_def
proof (rule for_loop_rule[where P = "\<lambda>k t. length t = 3
          \<and> (\<forall>c<3. t ! c = (\<Sum>y\<leftarrow>[0..<k].
                   row_sum (\<lambda>i. map_option unat (chan_of (of_nat i))) src (y * unat stride) (unat row_bytes) c))"])
  show "length (replicate NUM_CHANNELS (0::nat)) = 3
          \<and> (\<forall>c<3. replicate NUM_CHANNELS (0::nat) ! c = (\<Sum>y\<leftarrow>[0..<0].
                   row_sum (\<lambda>i. map_option unat (chan_of (of_nat i))) src (y * unat stride) (unat row_bytes) c))"
    by (simp add: NUM_CHANNELS_def)
  show "0 \<le> unat height" by simp
next
  fix k t
  assume k: "0 \<le> k" "k < unat height"
    and inv: "length t = 3 \<and> (\<forall>c<3. t ! c = (\<Sum>y\<leftarrow>[0..<k].
                   row_sum (\<lambda>i. map_option unat (chan_of (of_nat i))) src (y * unat stride) (unat row_bytes) c))"
  from line_loop[of t "k * unat stride" "unat row_bytes" src chan_of] inv inb[OF k(2)] rng
  obtain t' where t': "for_loop 0 (unat row_bytes)
            (\<lambda>i a. case chan_of (of_nat i) of
                      None \<Rightarrow> Some a
                    | Some chan \<Rightarrow> add_sample src (k * unat stride + i) (unat chan) a) t = Some t'"
      "length t' = 3"
      "\<forall>c<3. t' ! c = t ! c + row_sum (\<lambda>i. map_option unat (chan_of (of_nat i))) src (k * unat stride) (unat row_bytes) c"
    by blast
  show "\<exists>t'. for_loop 0 (unat row_bytes)
            (\<lambda>i avg. case chan_of (of_nat i) of
                      None \<Rightarrow> Some avg
                    | Some chan \<Rightarrow> add_sample src (unat (of_nat k * stride) + i) (unat chan) avg) t = Some t'
          \<and> (length t' = 3 \<and> (\<forall>c<3. t' ! c = (\<Sum>y\<leftarrow>[0..<Suc k].
                   row_sum (\<lambda>i. map_option unat (chan_of (of_nat i))) src (y * unat stride) (unat row_bytes) c)))"
    unfolding nowrap[OF k(2)] using t' inv by simp
qed

text \<open>Re-indexing a line: the bytes at offsets congruent \<open>r\<close> modulo 4 (or 2) are the
  bytes at offset \<open>r\<close> of the successive groups of 4 (or 2).\<close>

lemma row_sum_period4:
  assumes "r < 4" and "\<And>i. i < n \<Longrightarrow> (chan i = Some c) = (i mod 4 = r)"
  shows "row_sum chan src base n c = (\<Sum>k\<leftarrow>[0..<(n + 3 - r) div 4]. unat (src ! (base + (4 * k + r))))"
  using assms(2)
proof (induction n)
  case 0
  have "(3 - r) div 4 = 0" by simp
  then show ?case by simp
next
  case (Suc n)
  have ih: "row_sum chan src base n c = (\<Sum>k\<leftarrow>[0..<(n + 3 - r) div 4]. unat (src ! (base + (4 * k + r))))"
    using Suc by simp
  have sel: "(chan n = Some c) = (n mod 4 = r)" using Suc.prems by simp
  show ?case
  proof (cases "n mod 4 = r")
    case True
    have "(Suc n + 3 - r) div 4 = Suc ((n + 3 - r) div 4)"
      using count_step[OF assms(1), of n] True by simp
    moreover have "4 * ((n + 3 - r) div 4) + r = n"
      using count_pos[OF assms(1) True] .
    ultimately show ?thesis using ih sel True by (simp add: row_sum_Suc)
  next
    case False
    have "(Suc n + 3 - r) div 4 = (n + 3 - r) div 4"
      using count_step[OF assms(1), of n] False by simp
    then show ?thesis using ih sel False by (simp add: row_sum_Suc)
  qed
qed

lemma row_sum_period2:
  assumes "r < 2" and "\<And>i. i < n \<Longrightarrow> (chan i = Some c) = (i mod 2 = r)"
  shows "row_sum chan src base n c = (\<Sum>k\<leftarrow>[0..<(n + 1 - r) div 2]. unat (src ! (base + (2 * k + r))))"
  using assms(2)
proof (induction n)
  case 0
  have "(1 - r) div 2 = 0" by simp
  then show ?case by simp
next
  case (Suc n)
  have ih: "row_sum chan src base n c = (\<Sum>k\<leftarrow>[0..<(n + 1 - r) div 2]. unat (src ! (base + (2 * k + r))))"
    using Suc by simp
  have sel: "(chan n = Some c) = (n mod 2 = r)" using Suc.prems by simp
  have n: "n = 2 * (n div 2) + n mod 2" by simp
  show ?case
  proof (cases "n mod 2 = r")
    case True
    then have "n = 2 * (n div 2) + r" using n by simp
    then have e: "Suc n + 1 - r = 2 * (n div 2 + 1)" "n + 1 - r = 2 * (n div 2) + 1"
      using assms(1) by simp_all
    have "(Suc n + 1 - r) div 2 = Suc ((n + 1 - r) div 2)"
      unfolding e by simp
    moreover have "2 * ((n + 1 - r) div 2) + r = n"
      unfolding e using \<open>n = 2 * (n div 2) + r\<close> by simp
    ultimately show ?thesis using ih sel True by (simp add: row_sum_Suc)
  next
    case False
    have "(Suc n + 1 - r) div 2 = (n + 1 - r) div 2"
    proof (cases "r = 0")
      case True
      then have "n mod 2 = 1" using False by simp
      then have "n = 2 * (n div 2) + 1" using n by simp
      then have "Suc n + 1 - r = 2 * (n div 2 + 1) + 1" "n + 1 - r = 2 * (n div 2 + 1)"
        using True by simp_all
      then show ?thesis by simp
    next
      case r1: False
      then have "r = 1" using assms(1) by simp
      then have "n mod 2 = 0" using False by simp
      then have "n = 2 * (n div 2)" using n by simp
      then have "Suc n + 1 - r = 2 * (n div 2) + 1" "n + 1 - r = 2 * (n div 2)"
        using \<open>r = 1\<close> by simp_all
      then show ?thesis by simp
    qed
    then show ?thesis using ih sel False by (simp add: row_sum_Suc)
  qed
qed

lemma unat_height_bound: "unat (h :: u32) < 2 ^ 32"
  using unsigned_less[of h, where 'a = nat] by simp

lemma well_formed_facts:
  assumes wf: "well_formed bpp b" and bpp: "0 < bpp"
  shows "bpp * unat (fd_width (framedesc b)) < 2 ^ 32"
    and "unat (fd_width (framedesc b)) * unat (fd_height (framedesc b)) < 2 ^ 32"
    and "\<And>y. y < unat (fd_height (framedesc b)) \<Longrightarrow>
           unat (of_nat y * fd_stride (framedesc b) :: u32) = y * unat (fd_stride (framedesc b))"
    and "\<And>y. y < unat (fd_height (framedesc b)) \<Longrightarrow>
           y * unat (fd_stride (framedesc b)) + bpp * unat (fd_width (framedesc b))
             \<le> length (framebuf b)"
    and "\<And>y. y < unat (fd_height (framedesc b)) \<Longrightarrow>
           y * unat (fd_stride (framedesc b)) + unat (fd_stride (framedesc b)) < 2 ^ 32"
proof -
  let ?w = "unat (fd_width (framedesc b))"
  let ?h = "unat (fd_height (framedesc b))"
  let ?s = "unat (fd_stride (framedesc b))"
  have row: "bpp * ?w \<le> ?s" and ext: "?h * ?s < 2 ^ 32"
    and buf: "?h = 0 \<or> (?h - 1) * ?s + bpp * ?w \<le> length (framebuf b)"
    using wf by (simp_all add: well_formed_def)
  have s32: "?s < 2 ^ 32" by (rule unat_height_bound)
  show "bpp * ?w < 2 ^ 32" using row s32 by simp
  have "?w \<le> bpp * ?w" using bpp by (cases bpp) simp_all
  then have "?w \<le> ?s" using row by (rule order_trans)
  then have "?w * ?h \<le> ?s * ?h" by (rule mult_le_mono1)
  also have "?s * ?h = ?h * ?s" by (rule mult.commute)
  finally show "?w * ?h < 2 ^ 32" using ext by (rule le_less_trans)
  show "unat (of_nat y * fd_stride (framedesc b) :: u32) = y * ?s" if y: "y < ?h" for y
  proof -
    have "y < 2 ^ 32" using y unat_height_bound[of "fd_height (framedesc b)"] by simp
    then have uy: "unat (of_nat y :: u32) = y" by (rule unat_of_nat_u32)
    have "y \<le> ?h" using y by simp
    then have "y * ?s \<le> ?h * ?s" by (rule mult_le_mono1)
    then have "y * ?s < 2 ^ 32" using ext by (rule le_less_trans)
    then have "unat (of_nat y :: u32) * ?s < 2 ^ 32" by (simp only: uy)
    then show ?thesis using unat_mult_lem[of "of_nat y :: u32" "fd_stride (framedesc b)"] uy by simp
  qed
  show "y * ?s + bpp * ?w \<le> length (framebuf b)" if y: "y < ?h" for y
  proof -
    have "y \<le> ?h - 1" using y by simp
    then have "y * ?s \<le> (?h - 1) * ?s" by (rule mult_le_mono1)
    moreover have "(?h - 1) * ?s + bpp * ?w \<le> length (framebuf b)" using buf y by simp
    ultimately show ?thesis by linarith
  qed
  show "y * ?s + ?s < 2 ^ 32" if y: "y < ?h" for y
  proof -
    have "Suc y \<le> ?h" using y by simp
    then have "Suc y * ?s \<le> ?h * ?s" by (rule mult_le_mono1)
    then have "Suc y * ?s < 2 ^ 32" using ext by (rule le_less_trans)
    then show ?thesis by simp
  qed
qed

lemma unat_times_width:
  assumes "unat (k :: u32) * unat (w :: u32) < 2 ^ 32"
  shows "unat (k * w) = unat k * unat w"
  using assms unat_mult_lem[of k w] by simp

lemma sum_lines_spec:
  assumes wf: "well_formed bpp b" and bpp: "0 < bpp"
    and rb: "unat row_bytes = bpp * unat (fd_width (framedesc b))"
    and rng: "\<And>i ch. i < unat row_bytes \<Longrightarrow> chan_of (of_nat i) = Some ch \<Longrightarrow> unat ch < 3"
  shows "\<exists>avg. sum_lines chan_of row_bytes (framebuf b) (fd_height (framedesc b))
                  (fd_stride (framedesc b)) = Some avg
          \<and> length avg = 3
          \<and> (\<forall>c<3. avg ! c =
                (\<Sum>y\<leftarrow>[0..<unat (fd_height (framedesc b))].
                   row_sum (\<lambda>i. map_option unat (chan_of (of_nat i))) (framebuf b)
                     (y * unat (fd_stride (framedesc b))) (unat row_bytes) c))"
proof (rule sum_lines_total)
  note f = well_formed_facts[OF wf bpp]
  show "unat (of_nat y * fd_stride (framedesc b) :: u32) = y * unat (fd_stride (framedesc b))"
    if "y < unat (fd_height (framedesc b))" for y
    using f(3)[OF that] .
  show "y * unat (fd_stride (framedesc b)) + unat row_bytes \<le> length (framebuf b)"
    if "y < unat (fd_height (framedesc b))" for y
    using f(4)[OF that] rb by simp
  show "unat ch < 3" if "i < unat row_bytes" "chan_of (of_nat i) = Some ch" for i ch
    using rng[OF that] .
qed

lemma count4: "c < 3 \<Longrightarrow> (4 * w + 3 - c) div 4 = (w :: nat)"
proof -
  assume "c < 3"
  then have "4 * w + 3 - c = 4 * w + (3 - c)" "3 - c < 4" by simp_all
  then show ?thesis by simp
qed

lemma spec_total_alt:
  "spec_channel_total src samples height stride step off =
     (\<Sum>y\<leftarrow>[0..<height]. \<Sum>k\<leftarrow>[0..<samples]. unat (src ! (y * stride + (step * k + off))))"
  by (simp add: spec_channel_total_def mult.commute add.assoc)

lemma row_sum_cong:
  assumes "\<And>i. i < n \<Longrightarrow> g i = f i"
  shows "row_sum g src base n c = row_sum f src base n c"
  using assms by (induction n) (simp_all add: row_sum_Suc)

lemma layout_total:
  assumes wf: "well_formed bpp b" and bpp: "0 < bpp"
    and rb: "unat row_bytes = bpp * unat (fd_width (framedesc b))"
    and ch: "\<And>i. i < unat row_bytes \<Longrightarrow> map_option unat (chan_of (of_nat i)) = f i"
    and rng: "\<And>i c. f i = Some c \<Longrightarrow> c < 3"
  shows "\<exists>avg. sum_lines chan_of row_bytes (framebuf b) (fd_height (framedesc b))
                  (fd_stride (framedesc b)) = Some avg
          \<and> length avg = 3
          \<and> (\<forall>c<3. avg ! c =
                (\<Sum>y\<leftarrow>[0..<unat (fd_height (framedesc b))].
                   row_sum f (framebuf b) (y * unat (fd_stride (framedesc b)))
                     (bpp * unat (fd_width (framedesc b))) c))"
proof -
  have "\<exists>avg. sum_lines chan_of row_bytes (framebuf b) (fd_height (framedesc b))
                  (fd_stride (framedesc b)) = Some avg
          \<and> length avg = 3
          \<and> (\<forall>c<3. avg ! c =
                (\<Sum>y\<leftarrow>[0..<unat (fd_height (framedesc b))].
                   row_sum (\<lambda>i. map_option unat (chan_of (of_nat i))) (framebuf b)
                     (y * unat (fd_stride (framedesc b))) (unat row_bytes) c))"
  proof (rule sum_lines_spec[OF wf bpp rb])
    fix i ch'
    assume i: "i < unat row_bytes" and c: "chan_of (of_nat i) = Some ch'"
    have "f i = Some (unat ch')" using ch[OF i] c by simp
    then show "unat ch' < 3" by (rule rng)
  qed
  moreover have "row_sum (\<lambda>i. map_option unat (chan_of (of_nat i))) (framebuf b) base (unat row_bytes) c
                   = row_sum f (framebuf b) base (bpp * unat (fd_width (framedesc b))) c" for base c
    unfolding rb [symmetric] by (rule row_sum_cong) (rule ch)
  ultimately show ?thesis by simp
qed

lemma mod4_cases: "(i :: nat) mod 4 = 0 \<or> i mod 4 = 1 \<or> i mod 4 = 2 \<or> i mod 4 = 3"
proof -
  have "i mod 4 < 4" by simp
  then show ?thesis by linarith
qed

lemma mod2_mod4: "(i :: nat) mod 2 = i mod 4 mod 2"
  by (simp add: mod_mod_cancel)

lemma half_counts:
  "(2 * w + 1) div 2 = (w :: nat)"
  "(2 * w + 2) div 4 = (w + 1) div 2"
  "(2 * w) div 4 = w div 2"
  "(2 * w + 3) div 4 = (w + 1) div 2"
  "(2 * w + 1) div 4 = w div 2"
proof -
  have q: "x div 4 = x div 2 div 2" for x :: nat
    using div_mult2_eq[of x 2 2] by simp
  show "(2 * w + 1) div 2 = w" by simp
  show "(2 * w + 2) div 4 = (w + 1) div 2" by (simp add: q)
  show "(2 * w) div 4 = w div 2" by (simp add: q)
  have "(2 * w + 3) div 2 = w + 1" by simp
  then show "(2 * w + 3) div 4 = (w + 1) div 2" by (simp add: q)
  show "(2 * w + 1) div 4 = w div 2" by (simp add: q)
qed

lemma chroma_selectors:
  fixes i :: nat
  shows "((if i mod 2 = 0 then 0 else if i mod 4 = 1 then 1 else (2 :: nat)) = 1) = (i mod 4 = 1)"
    and "((if i mod 2 = 0 then 0 else if i mod 4 = 1 then 1 else (2 :: nat)) = 2) = (i mod 4 = 3)"
    and "((if i mod 2 = 1 then 0 else if i mod 4 = 0 then 1 else (2 :: nat)) = 1) = (i mod 4 = 0)"
    and "((if i mod 2 = 1 then 0 else if i mod 4 = 0 then 1 else (2 :: nat)) = 2) = (i mod 4 = 2)"
proof -
  have m: "i mod 2 = i mod 4 mod 2" by (rule mod2_mod4)
  have "(i mod 4 = 0 \<and> i mod 2 = 0) \<or> (i mod 4 = 1 \<and> i mod 2 = 1)
             \<or> (i mod 4 = 2 \<and> i mod 2 = 0) \<or> (i mod 4 = 3 \<and> i mod 2 = 1)"
    using mod4_cases[of i] by (elim disjE) (simp_all add: m)
  then show "((if i mod 2 = 0 then 0 else if i mod 4 = 1 then 1 else (2 :: nat)) = 1) = (i mod 4 = 1)"
    and "((if i mod 2 = 0 then 0 else if i mod 4 = 1 then 1 else (2 :: nat)) = 2) = (i mod 4 = 3)"
    and "((if i mod 2 = 1 then 0 else if i mod 4 = 0 then 1 else (2 :: nat)) = 1) = (i mod 4 = 0)"
    and "((if i mod 2 = 1 then 0 else if i mod 4 = 0 then 1 else (2 :: nat)) = 2) = (i mod 4 = 2)"
    by auto
qed

lemma packed_row_bytes:
  assumes "well_formed 4 b"
  shows "unat (4 * fd_width (framedesc b)) = 4 * unat (fd_width (framedesc b))"
    and "unat (fd_width (framedesc b) * fd_height (framedesc b))
           = unat (fd_width (framedesc b)) * unat (fd_height (framedesc b))"
proof -
  have p: "0 < (4 :: nat)" by simp
  note f = well_formed_facts[OF assms p]
  show "unat (4 * fd_width (framedesc b)) = 4 * unat (fd_width (framedesc b))"
    using f(1) unat_times_width[of 4 "fd_width (framedesc b)"] by simp
  show "unat (fd_width (framedesc b) * fd_height (framedesc b))
           = unat (fd_width (framedesc b)) * unat (fd_height (framedesc b))"
    using f(2) by (rule unat_times_width)
qed

lemma chroma_row_bytes:
  assumes "well_formed 2 b"
  shows "unat (2 * fd_width (framedesc b)) = 2 * unat (fd_width (framedesc b))"
    and "unat (fd_width (framedesc b) * fd_height (framedesc b))
           = unat (fd_width (framedesc b)) * unat (fd_height (framedesc b))"
    and "unat (fd_width (framedesc b) div 2 * fd_height (framedesc b))
           = unat (fd_width (framedesc b)) div 2 * unat (fd_height (framedesc b))"
proof -
  have p: "0 < (2 :: nat)" by simp
  note f = well_formed_facts[OF assms p]
  show "unat (2 * fd_width (framedesc b)) = 2 * unat (fd_width (framedesc b))"
    using f(1) unat_times_width[of 2 "fd_width (framedesc b)"] by simp
  show "unat (fd_width (framedesc b) * fd_height (framedesc b))
           = unat (fd_width (framedesc b)) * unat (fd_height (framedesc b))"
    using f(2) by (rule unat_times_width)
  have h: "unat (fd_width (framedesc b) div 2) = unat (fd_width (framedesc b)) div 2"
    by (simp add: unat_div)
  have "unat (fd_width (framedesc b)) div 2 * unat (fd_height (framedesc b))
          \<le> unat (fd_width (framedesc b)) * unat (fd_height (framedesc b))"
    by (rule mult_le_mono1) simp
  then have "unat (fd_width (framedesc b) div 2) * unat (fd_height (framedesc b)) < 2 ^ 32"
    unfolding h using f(2) by (rule le_less_trans)
  then show "unat (fd_width (framedesc b) div 2 * fd_height (framedesc b))
           = unat (fd_width (framedesc b)) div 2 * unat (fd_height (framedesc b))"
    using unat_times_width[of "fd_width (framedesc b) div 2" "fd_height (framedesc b)"] h by simp
qed

lemma rgb8888_totals:
  assumes wf: "well_formed 4 b"
  shows "\<exists>avg. sum_lines rgb8888_chan (4 * fd_width (framedesc b)) (framebuf b)
                  (fd_height (framedesc b)) (fd_stride (framedesc b)) = Some avg
          \<and> length avg = 3
          \<and> (\<forall>c<3. avg ! c = spec_channel_total (framebuf b) (unat (fd_width (framedesc b)))
                               (unat (fd_height (framedesc b))) (unat (fd_stride (framedesc b))) 4 c)"
proof -
  let ?f = "\<lambda>i :: nat. if i mod 4 = 3 then None else Some (i mod 4)"
  have p: "0 < (4 :: nat)" by simp
  note rb = packed_row_bytes(1)[OF wf]
  have ch: "map_option unat (rgb8888_chan (of_nat i)) = ?f i" if "i < unat (4 * fd_width (framedesc b))" for i
  proof -
    have "i < 2 ^ 32" using that unat_height_bound[of "4 * fd_width (framedesc b)"] by simp
    then show ?thesis by (rule rgb8888_chan_nat)
  qed
  have rng: "c < 3" if "?f i = Some c" for i c
    using that mod4_cases[of i] by (auto split: if_splits)
  have row: "row_sum ?f (framebuf b) base (4 * unat (fd_width (framedesc b))) c
             = (\<Sum>k\<leftarrow>[0..<unat (fd_width (framedesc b))]. unat (framebuf b ! (base + (4 * k + c))))"
    if "c < 3" for c base
  proof -
    have sel: "(?f i = Some c) = (i mod 4 = c)" for i using that by auto
    have "row_sum ?f (framebuf b) base (4 * unat (fd_width (framedesc b))) c
            = (\<Sum>k\<leftarrow>[0..<(4 * unat (fd_width (framedesc b)) + 3 - c) div 4].
                 unat (framebuf b ! (base + (4 * k + c))))"
    proof (rule row_sum_period4)
      show "c < 4" using that by simp
      show "(?f i = Some c) = (i mod 4 = c)" for i by (rule sel)
    qed
    also have "(4 * unat (fd_width (framedesc b)) + 3 - c) div 4 = unat (fd_width (framedesc b))"
      using that by (rule count4)
    finally show ?thesis .
  qed
  have "\<exists>avg. sum_lines rgb8888_chan (4 * fd_width (framedesc b)) (framebuf b)
                  (fd_height (framedesc b)) (fd_stride (framedesc b)) = Some avg
          \<and> length avg = 3
          \<and> (\<forall>c<3. avg ! c =
                (\<Sum>y\<leftarrow>[0..<unat (fd_height (framedesc b))].
                   row_sum ?f (framebuf b) (y * unat (fd_stride (framedesc b)))
                     (4 * unat (fd_width (framedesc b))) c))"
  proof (rule layout_total[where f = ?f and bpp = 4, OF wf p rb])
    show "map_option unat (rgb8888_chan (of_nat i)) = ?f i"
      if "i < unat (4 * fd_width (framedesc b))" for i
      using that by (rule ch)
    show "c < 3" if "?f i = Some c" for i c
      using that by (rule rng)
  qed
  then show ?thesis by (simp add: row spec_total_alt)
qed

lemma bgr8888_totals:
  assumes wf: "well_formed 4 b"
  shows "\<exists>avg. sum_lines (bgr8888_chan (fd_width (framedesc b))) (4 * fd_width (framedesc b))
                  (framebuf b) (fd_height (framedesc b)) (fd_stride (framedesc b)) = Some avg
          \<and> length avg = 3
          \<and> (\<forall>c<3. avg ! c = spec_channel_total (framebuf b) (unat (fd_width (framedesc b)))
                               (unat (fd_height (framedesc b))) (unat (fd_stride (framedesc b))) 4 (2 - c))"
proof -
  let ?f = "\<lambda>i :: nat. if i mod 4 = 3 then None else Some (2 - i mod 4)"
  have p: "0 < (4 :: nat)" by simp
  note rb = packed_row_bytes(1)[OF wf]
  have w32: "4 * unat (fd_width (framedesc b)) < 2 ^ 32"
    using well_formed_facts(1)[OF wf p] .
  have ch: "map_option unat (bgr8888_chan (fd_width (framedesc b)) (of_nat i)) = ?f i"
    if "i < unat (4 * fd_width (framedesc b))" for i
    using bgr8888_chan_nat[OF w32, of i] that rb by simp
  have rng: "c < 3" if "?f i = Some c" for i c
    using that by (auto split: if_splits)
  have row: "row_sum ?f (framebuf b) base (4 * unat (fd_width (framedesc b))) c
             = (\<Sum>k\<leftarrow>[0..<unat (fd_width (framedesc b))]. unat (framebuf b ! (base + (4 * k + (2 - c)))))"
    if "c < 3" for c base
  proof -
    have sel: "(?f i = Some c) = (i mod 4 = 2 - c)" for i
      using that mod4_cases[of i] by auto
    have c3: "2 - c < 3" by simp
    have "row_sum ?f (framebuf b) base (4 * unat (fd_width (framedesc b))) c
            = (\<Sum>k\<leftarrow>[0..<(4 * unat (fd_width (framedesc b)) + 3 - (2 - c)) div 4].
                 unat (framebuf b ! (base + (4 * k + (2 - c)))))"
    proof (rule row_sum_period4)
      show "2 - c < 4" by simp
      show "(?f i = Some c) = (i mod 4 = 2 - c)" for i by (rule sel)
    qed
    also have "(4 * unat (fd_width (framedesc b)) + 3 - (2 - c)) div 4 = unat (fd_width (framedesc b))"
      using c3 by (rule count4)
    finally show ?thesis .
  qed
  have "\<exists>avg. sum_lines (bgr8888_chan (fd_width (framedesc b))) (4 * fd_width (framedesc b)) (framebuf b)
                  (fd_height (framedesc b)) (fd_stride (framedesc b)) = Some avg
          \<and> length avg = 3
          \<and> (\<forall>c<3. avg ! c =
                (\<Sum>y\<leftarrow>[0..<unat (fd_height (framedesc b))].
                   row_sum ?f (framebuf b) (y * unat (fd_stride (framedesc b)))
                     (4 * unat (fd_width (framedesc b))) c))"
  proof (rule layout_total[where f = ?f and bpp = 4, OF wf p rb])
    show "map_option unat (bgr8888_chan (fd_width (framedesc b)) (of_nat i)) = ?f i"
      if "i < unat (4 * fd_width (framedesc b))" for i
      using that by (rule ch)
    show "c < 3" if "?f i = Some c" for i c
      using that by (rule rng)
  qed
  then show ?thesis by (simp add: row spec_total_alt)
qed

lemma ycbycr_totals:
  assumes wf: "well_formed 2 b"
  shows "\<exists>avg. sum_lines ycbycr_chan (2 * fd_width (framedesc b)) (framebuf b)
                  (fd_height (framedesc b)) (fd_stride (framedesc b)) = Some avg
          \<and> length avg = 3
          \<and> avg ! 0 = spec_channel_total (framebuf b) (unat (fd_width (framedesc b)))
                         (unat (fd_height (framedesc b))) (unat (fd_stride (framedesc b))) 2 0
          \<and> avg ! 1 = spec_channel_total (framebuf b) ((unat (fd_width (framedesc b)) + 1) div 2)
                         (unat (fd_height (framedesc b))) (unat (fd_stride (framedesc b))) 4 1
          \<and> avg ! 2 = spec_channel_total (framebuf b) (unat (fd_width (framedesc b)) div 2)
                         (unat (fd_height (framedesc b))) (unat (fd_stride (framedesc b))) 4 3"
proof -
  let ?f = "\<lambda>i :: nat. Some (if i mod 2 = 0 then 0 else if i mod 4 = 1 then 1 else (2 :: nat))"
  let ?w = "unat (fd_width (framedesc b))"
  have p: "0 < (2 :: nat)" by simp
  note rb = chroma_row_bytes(1)[OF wf]
  have ch: "map_option unat (ycbycr_chan (of_nat i)) = ?f i" if "i < unat (2 * fd_width (framedesc b))" for i
  proof -
    have "i < 2 ^ 32" using that unat_height_bound[of "2 * fd_width (framedesc b)"] by simp
    then show ?thesis by (rule ycbycr_chan_nat)
  qed
  have rng: "c < 3" if "?f i = Some c" for i c
    using that by (auto split: if_splits)
  have sel0: "(?f i = Some 0) = (i mod 2 = 0)" for i by simp
  have sel1: "(?f i = Some 1) = (i mod 4 = 1)" for i
    using chroma_selectors(1)[of i] by simp
  have sel2: "(?f i = Some 2) = (i mod 4 = 3)" for i
    using chroma_selectors(2)[of i] by simp
  have row0: "row_sum ?f (framebuf b) base (2 * ?w) 0
             = (\<Sum>k\<leftarrow>[0..<?w]. unat (framebuf b ! (base + (2 * k + 0))))" for base
  proof -
    have "row_sum ?f (framebuf b) base (2 * ?w) 0
            = (\<Sum>k\<leftarrow>[0..<(2 * ?w + 1 - 0) div 2]. unat (framebuf b ! (base + (2 * k + 0))))"
    proof (rule row_sum_period2)
      show "(0 :: nat) < 2" by simp
      show "(?f i = Some 0) = (i mod 2 = 0)" for i by (rule sel0)
    qed
    also have "(2 * ?w + 1 - 0) div 2 = ?w" using half_counts(1)[of ?w] by simp
    finally show ?thesis .
  qed
  have row1: "row_sum ?f (framebuf b) base (2 * ?w) 1
             = (\<Sum>k\<leftarrow>[0..<(?w + 1) div 2]. unat (framebuf b ! (base + (4 * k + 1))))" for base
  proof -
    have "row_sum ?f (framebuf b) base (2 * ?w) 1
            = (\<Sum>k\<leftarrow>[0..<(2 * ?w + 3 - 1) div 4]. unat (framebuf b ! (base + (4 * k + 1))))"
    proof (rule row_sum_period4)
      show "(1 :: nat) < 4" by simp
      show "(?f i = Some 1) = (i mod 4 = 1)" for i by (rule sel1)
    qed
    also have "(2 * ?w + 3 - 1) div 4 = (?w + 1) div 2" using half_counts(2)[of ?w] by simp
    finally show ?thesis .
  qed
  have row2: "row_sum ?f (framebuf b) base (2 * ?w) 2
             = (\<Sum>k\<leftarrow>[0..<?w div 2]. unat (framebuf b ! (base + (4 * k + 3))))" for base
  proof -
    have "row_sum ?f (framebuf b) base (2 * ?w) 2
            = (\<Sum>k\<leftarrow>[0..<(2 * ?w + 3 - 3) div 4]. unat (framebuf b ! (base + (4 * k + 3))))"
    proof (rule row_sum_period4)
      show "(3 :: nat) < 4" by simp
      show "(?f i = Some 2) = (i mod 4 = 3)" for i by (rule sel2)
    qed
    also have "(2 * ?w + 3 - 3) div 4 = ?w div 2" using half_counts(3)[of ?w] by simp
    finally show ?thesis .
  qed
  have "\<exists>avg. sum_lines ycbycr_chan (2 * fd_width (framedesc b)) (framebuf b)
                  (fd_height (framedesc b)) (fd_stride (framedesc b)) = Some avg
          \<and> length avg = 3
          \<and> (\<forall>c<3. avg ! c =
                (\<Sum>y\<leftarrow>[0..<unat (fd_height (framedesc b))].
                   row_sum ?f (framebuf b) (y * unat (fd_stride (framedesc b))) (2 * ?w) c))"
  proof (rule layout_total[where f = ?f and bpp = 2, OF wf p rb])
    show "map_option unat (ycbycr_chan (of_nat i)) = ?f i"
      if "i < unat (2 * fd_width (framedesc b))" for i
      using that by (rule ch)
    show "c < 3" if "?f i = Some c" for i c
      using that by (rule rng)
  qed
  then obtain avg where
    avg: "sum_lines ycbycr_chan (2 * fd_width (framedesc b)) (framebuf b)
                  (fd_height (framedesc b)) (fd_stride (framedesc b)) = Some avg"
         "length avg = 3"
         "\<forall>c<3. avg ! c =
                (\<Sum>y\<leftarrow>[0..<unat (fd_height (framedesc b))].
                   row_sum ?f (framebuf b) (y * unat (fd_stride (framedesc b))) (2 * ?w) c)"
    by blast
  have "avg ! 0 = (\<Sum>y\<leftarrow>[0..<unat (fd_height (framedesc b))].
                   row_sum ?f (framebuf b) (y * unat (fd_stride (framedesc b))) (2 * ?w) 0)"
       "avg ! 1 = (\<Sum>y\<leftarrow>[0..<unat (fd_height (framedesc b))].
                   row_sum ?f (framebuf b) (y * unat (fd_stride (framedesc b))) (2 * ?w) 1)"
       "avg ! 2 = (\<Sum>y\<leftarrow>[0..<unat (fd_height (framedesc b))].
                   row_sum ?f (framebuf b) (y * unat (fd_stride (framedesc b))) (2 * ?w) 2)"
    using avg(3) by simp_all
  then show ?thesis using avg(1,2)
    unfolding row0 row1 row2 spec_total_alt by simp
qed

lemma cbycry_totals:
  assumes wf: "well_formed 2 b"
  shows "\<exists>avg. sum_lines cbycry_chan (2 * fd_width (framedesc b)) (framebuf b)
                  (fd_height (framedesc b)) (fd_stride (framedesc b)) = Some avg
          \<and> length avg = 3
          \<and> avg ! 0 = spec_channel_total (framebuf b) (unat (fd_width (framedesc b)))
                         (unat (fd_height (framedesc b))) (unat (fd_stride (framedesc b))) 2 1
          \<and> avg ! 1 = spec_channel_total (framebuf b) ((unat (fd_width (framedesc b)) + 1) div 2)
                         (unat (fd_height (framedesc b))) (unat (fd_stride (framedesc b))) 4 0
          \<and> avg ! 2 = spec_channel_total (framebuf b) (unat (fd_width (framedesc b)) div 2)
                         (unat (fd_height (framedesc b))) (unat (fd_stride (framedesc b))) 4 2"
proof -
  let ?f = "\<lambda>i :: nat. Some (if i mod 2 = 1 then 0 else if i mod 4 = 0 then 1 else (2 :: nat))"
  let ?w = "unat (fd_width (framedesc b))"
  have p: "0 < (2 :: nat)" by simp
  note rb = chroma_row_bytes(1)[OF wf]
  have ch: "map_option unat (cbycry_chan (of_nat i)) = ?f i" if "i < unat (2 * fd_width (framedesc b))" for i
  proof -
    have "i < unat (2 * fd_width (framedesc b))" by (rule that)
    also have "\<dots> \<le> 2 ^ 32 - 1" using unat_height_bound[of "2 * fd_width (framedesc b)"] by simp
    finally have "i + 1 < 2 ^ 32" by simp
    then show ?thesis by (rule cbycry_chan_nat)
  qed
  have rng: "c < 3" if "?f i = Some c" for i c
    using that by (auto split: if_splits)
  have sel0: "(?f i = Some 0) = (i mod 2 = 1)" for i by simp
  have sel1: "(?f i = Some 1) = (i mod 4 = 0)" for i
    using chroma_selectors(3)[of i] by simp
  have sel2: "(?f i = Some 2) = (i mod 4 = 2)" for i
    using chroma_selectors(4)[of i] by simp
  have row0: "row_sum ?f (framebuf b) base (2 * ?w) 0
             = (\<Sum>k\<leftarrow>[0..<?w]. unat (framebuf b ! (base + (2 * k + 1))))" for base
  proof -
    have "row_sum ?f (framebuf b) base (2 * ?w) 0
            = (\<Sum>k\<leftarrow>[0..<(2 * ?w + 1 - 1) div 2]. unat (framebuf b ! (base + (2 * k + 1))))"
    proof (rule row_sum_period2)
      show "(1 :: nat) < 2" by simp
      show "(?f i = Some 0) = (i mod 2 = 1)" for i by (rule sel0)
    qed
    also have "(2 * ?w + 1 - 1) div 2 = ?w" using half_counts(1)[of ?w] by simp
    finally show ?thesis .
  qed
  have row1: "row_sum ?f (framebuf b) base (2 * ?w) 1
             = (\<Sum>k\<leftarrow>[0..<(?w + 1) div 2]. unat (framebuf b ! (base + (4 * k + 0))))" for base
  proof -
    have "row_sum ?f (framebuf b) base (2 * ?w) 1
            = (\<Sum>k\<leftarrow>[0..<(2 * ?w + 3 - 0) div 4]. unat (framebuf b ! (base + (4 * k + 0))))"
    proof (rule row_sum_period4)
      show "(0 :: nat) < 4" by simp
      show "(?f i = Some 1) = (i mod 4 = 0)" for i by (rule sel1)
    qed
    also have "(2 * ?w + 3 - 0) div 4 = (?w + 1) div 2" using half_counts(4)[of ?w] by simp
    finally show ?thesis .
  qed
  have row2: "row_sum ?f (framebuf b) base (2 * ?w) 2
             = (\<Sum>k\<leftarrow>[0..<?w div 2]. unat (framebuf b ! (base + (4 * k + 2))))" for base
  proof -
    have "row_sum ?f (framebuf b) base (2 * ?w) 2
            = (\<Sum>k\<leftarrow>[0..<(2 * ?w + 3 - 2) div 4]. unat (framebuf b ! (base + (4 * k + 2))))"
    proof (rule row_sum_period4)
      show "(2 :: nat) < 4" by simp
      show "(?f i = Some 2) = (i mod 4 = 2)" for i by (rule sel2)
    qed
    also have "(2 * ?w + 3 - 2) div 4 = ?w div 2" using half_counts(5)[of ?w] by simp
    finally show ?thesis .
  qed
  have "\<exists>avg. sum_lines cbycry_chan (2 * fd_width (framedesc b)) (framebuf b)
                  (fd_height (framedesc b)) (fd_stride (framedesc b)) = Some avg
          \<and> length avg = 3
          \<and> (\<forall>c<3. avg ! c =
                (\<Sum>y\<leftarrow>[0..<unat (fd_height (framedesc b))].
                   row_sum ?f (framebuf b) (y * unat (fd_stride (framedesc b))) (2 * ?w) c))"
  proof (rule layout_total[where f = ?f and bpp = 2, OF wf p rb])
    show "map_option unat (cbycry_chan (of_nat i)) = ?f i"
      if "i < unat (2 * fd_width (framedesc b))" for i
      using that by (rule ch)
    show "c < 3" if "?f i = Some c" for i c
      using that by (rule rng)
  qed
  then obtain avg where
    avg: "sum_lines cbycry_chan (2 * fd_width (framedesc b)) (framebuf b)
                  (fd_height (framedesc b)) (fd_stride (framedesc b)) = Some avg"
         "length avg = 3"
         "\<forall>c<3. avg ! c =
                (\<Sum>y\<leftarrow>[0..<unat (fd_height (framedesc b))].
                   row_sum ?f (framebuf b) (y * unat (fd_stride (framedesc b))) (2 * ?w) c)"
    by blast
  have "avg ! 0 = (\<Sum>y\<leftarrow>[0..<unat (fd_height (framedesc b))].
                   row_sum ?f (framebuf b) (y * unat (fd_stride (framedesc b))) (2 * ?w) 0)"
       "avg ! 1 = (\<Sum>y\<leftarrow>[0..<unat (fd_height (framedesc b))].
                   row_sum ?f (framebuf b) (y * unat (fd_stride (framedesc b))) (2 * ?w) 1)"
       "avg ! 2 = (\<Sum>y\<leftarrow>[0..<unat (fd_height (framedesc b))].
                   row_sum ?f (framebuf b) (y * unat (fd_stride (framedesc b))) (2 * ?w) 2)"
    using avg(3) by simp_all
  then show ?thesis using avg(1,2)
    unfolding row0 row1 row2 spec_total_alt by simp
qed

lemma list3: "length xs = 3 \<Longrightarrow> xs = [xs ! 0, xs ! 1, xs ! 2]"
  by (cases xs; cases "tl xs"; cases "tl (tl xs)") auto

lemma all_below_3: "(\<forall>c<3. P c) = (P 0 \<and> P 1 \<and> P (2 :: nat))"
proof
  assume "\<forall>c<3. P c"
  then show "P 0 \<and> P 1 \<and> P 2" by simp
next
  assume a: "P 0 \<and> P 1 \<and> P 2"
  show "\<forall>c<3. P c"
  proof (intro allI impI)
    fix c :: nat
    assume "c < 3"
    then have "c = 0 \<or> c = 1 \<or> c = 2" by linarith
    then show "P c" using a by auto
  qed
qed

subsection \<open>C4: packed 4-byte layouts\<close>

text \<open>
  C4: for a frame in one of the two packed 4-byte layouts that is what its descriptor says
  (\<open>well_formed 4\<close>), the statistics stage returns; the sum of channel \<open>c\<close> is the sum over
  every row \<open>y\<close> and every pixel \<open>x\<close> of the byte at \<open>y * stride + 4 * x + off\<close>, where
  \<open>off = c\<close> for RGB8888 and the mirrored \<open>off = 2 - c\<close> for BGR8888, so the byte at offset 3
  of a pixel is never added and rows start at multiples of the stride; the three divisors
  are width times height, and the average is that sum over that divisor whenever the frame
  has a pixel. For the specification's example (width 2, height 1, stride 8, bytes 10, 20,
  30, 99, 40, 50, 60, 99, read as RGB8888) the sums are 50, 70, 90, the divisors 2, and the
  averages 25, 35, 45.
\<close>

theorem packed_channel_averages:
  "((frametype b = CAMERA_FRAMETYPE_RGB8888 \<or> frametype b = CAMERA_FRAMETYPE_BGR8888)
      \<and> well_formed 4 b \<longrightarrow>
      (\<exists>totals.
         channel_stats b
           = Some (Channel_averages totals
                [fd_width (framedesc b) * fd_height (framedesc b),
                 fd_width (framedesc b) * fd_height (framedesc b),
                 fd_width (framedesc b) * fd_height (framedesc b)])
         \<and> unat (fd_width (framedesc b) * fd_height (framedesc b))
             = unat (fd_width (framedesc b)) * unat (fd_height (framedesc b))
         \<and> length totals = 3
         \<and> (\<forall>c<3.
               totals ! c
                 = spec_channel_total (framebuf b) (unat (fd_width (framedesc b)))
                     (unat (fd_height (framedesc b))) (unat (fd_stride (framedesc b))) 4
                     (if frametype b = CAMERA_FRAMETYPE_RGB8888 then c else 2 - c)
               \<and> (0 < unat (fd_width (framedesc b)) * unat (fd_height (framedesc b)) \<longrightarrow>
                    channel_average
                      (Channel_averages totals
                         [fd_width (framedesc b) * fd_height (framedesc b),
                          fd_width (framedesc b) * fd_height (framedesc b),
                          fd_width (framedesc b) * fd_height (framedesc b)]) c
                      = Some (real (totals ! c)
                              / real (unat (fd_width (framedesc b))
                                      * unat (fd_height (framedesc b))))))))
   \<and> channel_stats (example_frame CAMERA_FRAMETYPE_RGB8888)
       = Some (Channel_averages [50, 70, 90] [2, 2, 2])
   \<and> map (channel_average (Channel_averages [50, 70, 90] [2, 2, 2])) [0, 1, 2]
       = [Some 25, Some 35, Some 45]"
proof (intro conjI impI)
  assume a: "(frametype b = CAMERA_FRAMETYPE_RGB8888 \<or> frametype b = CAMERA_FRAMETYPE_BGR8888)
      \<and> well_formed 4 b"
  then have wf: "well_formed 4 b" by simp
  let ?d = "fd_width (framedesc b) * fd_height (framedesc b)"
  note d = packed_row_bytes(2)[OF wf]
  have avgs: "channel_average (Channel_averages totals [?d, ?d, ?d]) c
                = Some (real (totals ! c) / real (unat (fd_width (framedesc b)) * unat (fd_height (framedesc b))))"
    if "length totals = 3" "c < 3" "0 < unat (fd_width (framedesc b)) * unat (fd_height (framedesc b))"
    for totals c
  proof -
    have nz: "?d \<noteq> 0" using that(3) d by (simp add: u32_eq_iff)
    have "[?d, ?d, ?d] ! c = ?d" using that(2) by (simp add: nth_Cons')
    then have "channel_average (Channel_averages totals [?d, ?d, ?d]) c
                 = Some (real (totals ! c) / real (unat ?d))"
      using that(1,2) nz by (simp add: channel_average_def NUM_CHANNELS_def)
    then show ?thesis by (simp only: d)
  qed
  from a show "\<exists>totals.
         channel_stats b = Some (Channel_averages totals [?d, ?d, ?d])
         \<and> unat ?d = unat (fd_width (framedesc b)) * unat (fd_height (framedesc b))
         \<and> length totals = 3
         \<and> (\<forall>c<3.
               totals ! c
                 = spec_channel_total (framebuf b) (unat (fd_width (framedesc b)))
                     (unat (fd_height (framedesc b))) (unat (fd_stride (framedesc b))) 4
                     (if frametype b = CAMERA_FRAMETYPE_RGB8888 then c else 2 - c)
               \<and> (0 < unat (fd_width (framedesc b)) * unat (fd_height (framedesc b)) \<longrightarrow>
                    channel_average (Channel_averages totals [?d, ?d, ?d]) c
                      = Some (real (totals ! c)
                              / real (unat (fd_width (framedesc b))
                                      * unat (fd_height (framedesc b))))))"
  proof (elim conjE disjE)
    assume t: "frametype b = CAMERA_FRAMETYPE_RGB8888"
    from rgb8888_totals[OF wf] obtain avg where
      avg: "sum_lines rgb8888_chan (4 * fd_width (framedesc b)) (framebuf b)
                  (fd_height (framedesc b)) (fd_stride (framedesc b)) = Some avg"
           "length avg = 3"
           "\<forall>c<3. avg ! c = spec_channel_total (framebuf b) (unat (fd_width (framedesc b)))
                               (unat (fd_height (framedesc b))) (unat (fd_stride (framedesc b))) 4 c"
      by blast
    have "channel_stats b = Some (Channel_averages avg [?d, ?d, ?d])"
      using t avg(1) by (simp add: channel_stats_def frame_dims_def)
    then show ?thesis using t avg(2,3) d avgs[OF avg(2)] by auto
  next
    assume t: "frametype b = CAMERA_FRAMETYPE_BGR8888"
    from bgr8888_totals[OF wf] obtain avg where
      avg: "sum_lines (bgr8888_chan (fd_width (framedesc b))) (4 * fd_width (framedesc b))
                  (framebuf b) (fd_height (framedesc b)) (fd_stride (framedesc b)) = Some avg"
           "length avg = 3"
           "\<forall>c<3. avg ! c = spec_channel_total (framebuf b) (unat (fd_width (framedesc b)))
                               (unat (fd_height (framedesc b))) (unat (fd_stride (framedesc b))) 4 (2 - c)"
      by blast
    have "channel_stats b = Some (Channel_averages avg [?d, ?d, ?d])"
      using t avg(1) by (simp add: channel_stats_def frame_dims_def)
    then show ?thesis using t avg(2,3) d avgs[OF avg(2)] by auto
  qed
next
  show "channel_stats (example_frame CAMERA_FRAMETYPE_RGB8888)
       = Some (Channel_averages [50, 70, 90] [2, 2, 2])"
    by code_simp
next
  show "map (channel_average (Channel_averages [50, 70, 90] [2, 2, 2])) [0, 1, 2]
       = [Some 25, Some 35, Some 45]"
    by (simp add: channel_average_def NUM_CHANNELS_def)
qed

theorem packed_channel_averages_witness:
  "frametype (padded_frame CAMERA_FRAMETYPE_BGR8888) = CAMERA_FRAMETYPE_BGR8888
   \<and> well_formed 4 (padded_frame CAMERA_FRAMETYPE_BGR8888)
   \<and> channel_stats (padded_frame CAMERA_FRAMETYPE_BGR8888)
       = Some (Channel_averages [40, 36, 32] [4, 4, 4])
   \<and> channel_average (Channel_averages [40, 36, 32] [4, 4, 4]) 0 = Some 10"
proof -
  let ?b = "padded_frame CAMERA_FRAMETYPE_BGR8888"
  have t: "frametype ?b = CAMERA_FRAMETYPE_BGR8888" by (simp add: padded_frame_def)
  have wf: "well_formed 4 ?b" by (simp add: well_formed_def padded_frame_def)
  have w: "fd_width (framedesc ?b) = 2" "fd_height (framedesc ?b) = 2" "fd_stride (framedesc ?b) = 12"
    by (simp_all add: padded_frame_def)
  have s: "spec_channel_total (framebuf ?b) 2 2 12 4 2 = 40"
          "spec_channel_total (framebuf ?b) 2 2 12 4 1 = 36"
          "spec_channel_total (framebuf ?b) 2 2 12 4 0 = 32"
    by code_simp+
  from packed_channel_averages[of ?b] t wf obtain totals where
    tot: "channel_stats ?b = Some (Channel_averages totals [4, 4, 4])"
         "length totals = 3"
         "\<forall>c<3. totals ! c = spec_channel_total (framebuf ?b) 2 2 12 4 (2 - c)
               \<and> channel_average (Channel_averages totals [4, 4, 4]) c = Some (real (totals ! c) / 4)"
    by (auto simp: w)
  have n: "totals ! 0 = 40" "totals ! 1 = 36" "totals ! 2 = 32"
    using tot(3) s by (simp_all add: all_below_3)
  have "totals = [40, 36, 32]" using list3[OF tot(2)] n by simp
  moreover have "channel_average (Channel_averages totals [4, 4, 4]) 0 = Some 10"
    using tot(3) n by (simp add: all_below_3)
  ultimately show ?thesis using t wf tot(1) by simp
qed

subsection \<open>C5: chroma-subsampled layouts\<close>

text \<open>
  C5: for a frame in one of the two 2-byte-per-pixel chroma-subsampled layouts that is what
  its descriptor says (\<open>well_formed 2\<close>), the statistics stage returns. Channel 0 (luma) is
  the sum of one byte per pixel, at offset 0 of each 2-byte pixel for YCBYCR and at offset
  1 for CBYCRY, and its divisor is width times height. Channels 1 and 2 (the two chroma
  channels) are the sums of one byte per group of 4 bytes, at offsets 1 and 3 of the group
  for YCBYCR and at offsets 0 and 2 for CBYCRY, which is the layout's byte order; their
  divisor is (width div 2) times height. A row holds \<open>(width + 1) div 2\<close> samples of
  channel 1 and \<open>width div 2\<close> samples of channel 2, the same number when the width is even.
  For the 2 by 1 frame with bytes 16, 100, 18, 200 the divisors are 2, 1, 1.
\<close>

theorem chroma_channel_averages:
  "((frametype b = CAMERA_FRAMETYPE_YCBYCR \<or> frametype b = CAMERA_FRAMETYPE_CBYCRY)
      \<and> well_formed 2 b \<longrightarrow>
      (\<exists>totals.
         channel_stats b
           = Some (Channel_averages totals
                [fd_width (framedesc b) * fd_height (framedesc b),
                 fd_width (framedesc b) div 2 * fd_height (framedesc b),
                 fd_width (framedesc b) div 2 * fd_height (framedesc b)])
         \<and> unat (fd_width (framedesc b) * fd_height (framedesc b))
             = unat (fd_width (framedesc b)) * unat (fd_height (framedesc b))
         \<and> unat (fd_width (framedesc b) div 2 * fd_height (framedesc b))
             = unat (fd_width (framedesc b)) div 2 * unat (fd_height (framedesc b))
         \<and> length totals = 3
         \<and> totals ! 0
             = spec_channel_total (framebuf b) (unat (fd_width (framedesc b)))
                 (unat (fd_height (framedesc b))) (unat (fd_stride (framedesc b))) 2
                 (if frametype b = CAMERA_FRAMETYPE_YCBYCR then 0 else 1)
         \<and> totals ! 1
             = spec_channel_total (framebuf b) ((unat (fd_width (framedesc b)) + 1) div 2)
                 (unat (fd_height (framedesc b))) (unat (fd_stride (framedesc b))) 4
                 (if frametype b = CAMERA_FRAMETYPE_YCBYCR then 1 else 0)
         \<and> totals ! 2
             = spec_channel_total (framebuf b) (unat (fd_width (framedesc b)) div 2)
                 (unat (fd_height (framedesc b))) (unat (fd_stride (framedesc b))) 4
                 (if frametype b = CAMERA_FRAMETYPE_YCBYCR then 3 else 2)
         \<and> (0 < unat (fd_width (framedesc b)) * unat (fd_height (framedesc b)) \<longrightarrow>
              channel_average
                (Channel_averages totals
                   [fd_width (framedesc b) * fd_height (framedesc b),
                    fd_width (framedesc b) div 2 * fd_height (framedesc b),
                    fd_width (framedesc b) div 2 * fd_height (framedesc b)]) 0
                = Some (real (totals ! 0)
                        / real (unat (fd_width (framedesc b)) * unat (fd_height (framedesc b)))))
         \<and> (0 < unat (fd_width (framedesc b)) div 2 * unat (fd_height (framedesc b)) \<longrightarrow>
              (\<forall>c. c = 1 \<or> c = 2 \<longrightarrow>
                 channel_average
                   (Channel_averages totals
                      [fd_width (framedesc b) * fd_height (framedesc b),
                       fd_width (framedesc b) div 2 * fd_height (framedesc b),
                       fd_width (framedesc b) div 2 * fd_height (framedesc b)]) c
                   = Some (real (totals ! c)
                           / real (unat (fd_width (framedesc b)) div 2
                                   * unat (fd_height (framedesc b))))))))
   \<and> channel_stats (chroma_frame CAMERA_FRAMETYPE_YCBYCR)
       = Some (Channel_averages [34, 100, 200] [2, 1, 1])
   \<and> channel_stats (chroma_frame CAMERA_FRAMETYPE_CBYCRY)
       = Some (Channel_averages [300, 16, 18] [2, 1, 1])"
proof (intro conjI impI)
  assume a: "(frametype b = CAMERA_FRAMETYPE_YCBYCR \<or> frametype b = CAMERA_FRAMETYPE_CBYCRY)
      \<and> well_formed 2 b"
  then have wf: "well_formed 2 b" by simp
  let ?d = "fd_width (framedesc b) * fd_height (framedesc b)"
  let ?e = "fd_width (framedesc b) div 2 * fd_height (framedesc b)"
  let ?w = "unat (fd_width (framedesc b))"
  let ?h = "unat (fd_height (framedesc b))"
  note d = chroma_row_bytes(2)[OF wf]
  note e = chroma_row_bytes(3)[OF wf]
  have avg0: "channel_average (Channel_averages totals [?d, ?e, ?e]) 0
                = Some (real (totals ! 0) / real (?w * ?h))"
    if "length totals = 3" "0 < ?w * ?h" for totals
  proof -
    have "?d \<noteq> 0" using that(2) d by (simp add: u32_eq_iff)
    then have "channel_average (Channel_averages totals [?d, ?e, ?e]) 0
                 = Some (real (totals ! 0) / real (unat ?d))"
      using that(1) by (simp add: channel_average_def NUM_CHANNELS_def)
    then show ?thesis by (simp only: d)
  qed
  have avg12: "channel_average (Channel_averages totals [?d, ?e, ?e]) c
                = Some (real (totals ! c) / real (?w div 2 * ?h))"
    if "length totals = 3" "0 < ?w div 2 * ?h" "c = 1 \<or> c = 2" for totals c
  proof -
    have "?e \<noteq> 0" using that(2) e by (simp add: u32_eq_iff)
    then have "channel_average (Channel_averages totals [?d, ?e, ?e]) c
                 = Some (real (totals ! c) / real (unat ?e))"
      using that(1,3) by (auto simp: channel_average_def NUM_CHANNELS_def)
    then show ?thesis by (simp only: e)
  qed
  from a show "\<exists>totals.
         channel_stats b = Some (Channel_averages totals [?d, ?e, ?e])
         \<and> unat ?d = ?w * ?h
         \<and> unat ?e = ?w div 2 * ?h
         \<and> length totals = 3
         \<and> totals ! 0
             = spec_channel_total (framebuf b) ?w ?h (unat (fd_stride (framedesc b))) 2
                 (if frametype b = CAMERA_FRAMETYPE_YCBYCR then 0 else 1)
         \<and> totals ! 1
             = spec_channel_total (framebuf b) ((?w + 1) div 2) ?h (unat (fd_stride (framedesc b))) 4
                 (if frametype b = CAMERA_FRAMETYPE_YCBYCR then 1 else 0)
         \<and> totals ! 2
             = spec_channel_total (framebuf b) (?w div 2) ?h (unat (fd_stride (framedesc b))) 4
                 (if frametype b = CAMERA_FRAMETYPE_YCBYCR then 3 else 2)
         \<and> (0 < ?w * ?h \<longrightarrow>
              channel_average (Channel_averages totals [?d, ?e, ?e]) 0
                = Some (real (totals ! 0) / real (?w * ?h)))
         \<and> (0 < ?w div 2 * ?h \<longrightarrow>
              (\<forall>c. c = 1 \<or> c = 2 \<longrightarrow>
                 channel_average (Channel_averages totals [?d, ?e, ?e]) c
                   = Some (real (totals ! c) / real (?w div 2 * ?h))))"
  proof (elim conjE disjE)
    assume t: "frametype b = CAMERA_FRAMETYPE_YCBYCR"
    from ycbycr_totals[OF wf] obtain avg where
      avg: "sum_lines ycbycr_chan (2 * fd_width (framedesc b)) (framebuf b)
                  (fd_height (framedesc b)) (fd_stride (framedesc b)) = Some avg"
           "length avg = 3"
           "avg ! 0 = spec_channel_total (framebuf b) ?w ?h (unat (fd_stride (framedesc b))) 2 0"
           "avg ! 1 = spec_channel_total (framebuf b) ((?w + 1) div 2) ?h (unat (fd_stride (framedesc b))) 4 1"
           "avg ! 2 = spec_channel_total (framebuf b) (?w div 2) ?h (unat (fd_stride (framedesc b))) 4 3"
      by blast
    have "channel_stats b = Some (Channel_averages avg [?d, ?e, ?e])"
      using t avg(1) by (simp add: channel_stats_def frame_dims_def)
    then show ?thesis using t avg(2-5) d e avg0[OF avg(2)] avg12[OF avg(2)] by auto
  next
    assume t: "frametype b = CAMERA_FRAMETYPE_CBYCRY"
    from cbycry_totals[OF wf] obtain avg where
      avg: "sum_lines cbycry_chan (2 * fd_width (framedesc b)) (framebuf b)
                  (fd_height (framedesc b)) (fd_stride (framedesc b)) = Some avg"
           "length avg = 3"
           "avg ! 0 = spec_channel_total (framebuf b) ?w ?h (unat (fd_stride (framedesc b))) 2 1"
           "avg ! 1 = spec_channel_total (framebuf b) ((?w + 1) div 2) ?h (unat (fd_stride (framedesc b))) 4 0"
           "avg ! 2 = spec_channel_total (framebuf b) (?w div 2) ?h (unat (fd_stride (framedesc b))) 4 2"
      by blast
    have "channel_stats b = Some (Channel_averages avg [?d, ?e, ?e])"
      using t avg(1) by (simp add: channel_stats_def frame_dims_def)
    then show ?thesis using t avg(2-5) d e avg0[OF avg(2)] avg12[OF avg(2)] by auto
  qed
next
  show "channel_stats (chroma_frame CAMERA_FRAMETYPE_YCBYCR)
       = Some (Channel_averages [34, 100, 200] [2, 1, 1])"
    by code_simp
next
  show "channel_stats (chroma_frame CAMERA_FRAMETYPE_CBYCRY)
       = Some (Channel_averages [300, 16, 18] [2, 1, 1])"
    by code_simp
qed

theorem chroma_channel_averages_witness:
  "frametype (padded_chroma_frame CAMERA_FRAMETYPE_CBYCRY) = CAMERA_FRAMETYPE_CBYCRY
   \<and> well_formed 2 (padded_chroma_frame CAMERA_FRAMETYPE_CBYCRY)
   \<and> channel_stats (padded_chroma_frame CAMERA_FRAMETYPE_CBYCRY)
       = Some (Channel_averages [80, 32, 40] [8, 4, 4])
   \<and> channel_average (Channel_averages [80, 32, 40] [8, 4, 4]) 0 = Some 10
   \<and> channel_average (Channel_averages [80, 32, 40] [8, 4, 4]) 1 = Some 8"
proof -
  let ?b = "padded_chroma_frame CAMERA_FRAMETYPE_CBYCRY"
  have t: "frametype ?b = CAMERA_FRAMETYPE_CBYCRY" by (simp add: padded_chroma_frame_def)
  have wf: "well_formed 2 ?b" by (simp add: well_formed_def padded_chroma_frame_def)
  have w: "fd_width (framedesc ?b) = 4" "fd_height (framedesc ?b) = 2" "fd_stride (framedesc ?b) = 10"
    by (simp_all add: padded_chroma_frame_def)
  have s: "spec_channel_total (framebuf ?b) 4 2 10 2 1 = 80"
          "spec_channel_total (framebuf ?b) 2 2 10 4 0 = 32"
          "spec_channel_total (framebuf ?b) 2 2 10 4 2 = 40"
    by code_simp+
  from chroma_channel_averages[of ?b] t wf obtain totals where
    tot: "channel_stats ?b = Some (Channel_averages totals [8, 4, 4])"
         "length totals = 3"
         "totals ! 0 = spec_channel_total (framebuf ?b) 4 2 10 2 1"
         "totals ! 1 = spec_channel_total (framebuf ?b) 2 2 10 4 0"
         "totals ! 2 = spec_channel_total (framebuf ?b) 2 2 10 4 2"
         "channel_average (Channel_averages totals [8, 4, 4]) 0 = Some (real (totals ! 0) / 8)"
         "channel_average (Channel_averages totals [8, 4, 4]) 1 = Some (real (totals ! 1) / 4)"
    by (auto simp: w)
  have n: "totals ! 0 = 80" "totals ! 1 = 32" "totals ! 2 = 40"
    using tot(3-5) s by simp_all
  have "totals = [80, 32, 40]" using list3[OF tot(2)] n by simp
  then show ?thesis using t wf tot(1,6,7) by simp
qed

section \<open>Packing, encoding and sending\<close>

lemma u32_of_nat_index:
  assumes "y * unat (s :: u32) + x * k + c < 2 ^ 32"
  shows "unat (of_nat y * s + of_nat x * of_nat k + of_nat c :: u32) = y * unat s + x * k + c"
proof -
  have "(of_nat y * s + of_nat x * of_nat k + of_nat c :: u32) = of_nat (y * unat s + x * k + c)"
    by simp
  then show ?thesis using assms by (simp only: unat_of_nat_u32)
qed

lemma u32_of_nat_pixel:
  assumes "(y * unat (w :: u32) + x) * k + c < 2 ^ 32"
  shows "unat ((of_nat y * w + of_nat x) * of_nat k + of_nat c :: u32) = (y * unat w + x) * k + c"
proof -
  have "((of_nat y * w + of_nat x) * of_nat k + of_nat c :: u32) = of_nat ((y * unat w + x) * k + c)"
    by simp
  then show ?thesis using assms by (simp only: unat_of_nat_u32)
qed

lemma pack_pixel_result:
  assumes src: "y * unat s + x * 4 + 2 < length src" "y * unat s + x * 4 + 2 < 2 ^ 32"
    and dst: "(y * unat w + x) * 3 + 2 < length rgb" "(y * unat w + x) * 3 + 2 < 2 ^ 32"
  shows "pack_pixel src w s (of_nat y) (of_nat x) rgb
           = Some (rgb[(y * unat w + x) * 3 := src ! (y * unat s + x * 4),
                       (y * unat w + x) * 3 + 1 := src ! (y * unat s + x * 4 + 1),
                       (y * unat w + x) * 3 + 2 := src ! (y * unat s + x * 4 + 2)])"
proof -
  have s0: "unat (of_nat y * s + of_nat x * 4 :: u32) = y * unat s + x * 4"
    using u32_of_nat_index[of y s x 4 0] src(2) by simp
  have s1: "unat (of_nat y * s + of_nat x * 4 + 1 :: u32) = y * unat s + x * 4 + 1"
    using u32_of_nat_index[of y s x 4 1] src(2) by simp
  have s2: "unat (of_nat y * s + of_nat x * 4 + 2 :: u32) = y * unat s + x * 4 + 2"
    using u32_of_nat_index[of y s x 4 2] src(2) by simp
  have d0: "unat ((of_nat y * w + of_nat x) * 3 :: u32) = (y * unat w + x) * 3"
    using u32_of_nat_pixel[of y w x 3 0] dst(2) by simp
  have d1: "unat ((of_nat y * w + of_nat x) * 3 + 1 :: u32) = (y * unat w + x) * 3 + 1"
    using u32_of_nat_pixel[of y w x 3 1] dst(2) by simp
  have d2: "unat ((of_nat y * w + of_nat x) * 3 + 2 :: u32) = (y * unat w + x) * 3 + 2"
    using u32_of_nat_pixel[of y w x 3 2] dst(2) by simp
  show ?thesis
    unfolding pack_pixel_def s0 s1 s2 d0 d1 d2
    using src(1) dst(1) by (simp add: copy_byte_def)
qed

lemma packed_upto_step:
  assumes inv: "packed_upto src w s p rgb" and len: "p * 3 + 2 < length rgb"
    and pos: "p div w = y" "p mod w = x"
  shows "packed_upto src w s (Suc p)
           (rgb[p * 3 := src ! (y * s + x * 4),
                p * 3 + 1 := src ! (y * s + x * 4 + 1),
                p * 3 + 2 := src ! (y * s + x * 4 + 2)])"
  unfolding packed_upto_def
proof (intro allI impI)
  fix q c :: nat
  assume q: "q < Suc p" and c: "c < 3"
  let ?r = "rgb[p * 3 := src ! (y * s + x * 4),
                p * 3 + 1 := src ! (y * s + x * 4 + 1),
                p * 3 + 2 := src ! (y * s + x * 4 + 2)]"
  show "?r ! (q * 3 + c) = src ! ((q div w) * s + (q mod w) * 4 + c)"
  proof (cases "q = p")
    case True
    have "c = 0 \<or> c = 1 \<or> c = 2" using c by linarith
    then show ?thesis using True len pos by (elim disjE) simp_all
  next
    case False
    then have lt: "q < p" using q by simp
    then have "q * 3 + c < p * 3" using c by simp
    then have "?r ! (q * 3 + c) = rgb ! (q * 3 + c)" by simp
    then show ?thesis using inv lt c by (simp add: packed_upto_def)
  qed
qed

lemma pack_rgb_correct:
  assumes wf: "well_formed 4 b"
  shows "\<exists>packed. pack_rgb junk (framebuf b) (fd_width (framedesc b)) (fd_height (framedesc b))
                     (fd_stride (framedesc b)) = Some packed
           \<and> length packed = unat (fd_width (framedesc b)) * unat (fd_height (framedesc b)) * 3
           \<and> packed_upto (framebuf b) (unat (fd_width (framedesc b)))
                (unat (fd_stride (framedesc b)))
                (unat (fd_height (framedesc b)) * unat (fd_width (framedesc b))) packed"
proof -
  let ?W = "fd_width (framedesc b)" and ?H = "fd_height (framedesc b)"
  let ?S = "fd_stride (framedesc b)"
  let ?w = "unat ?W" and ?h = "unat ?H" and ?s = "unat ?S"
  let ?src = "framebuf b"
  have p4: "0 < (4 :: nat)" by simp
  note f = well_formed_facts[OF wf p4]
  have row: "4 * ?w \<le> ?s" and ext: "?h * ?s < 2 ^ 32"
    using wf by (simp_all add: well_formed_def)
  have wh: "unat (?W * ?H) = ?w * ?h" by (rule packed_row_bytes(2)[OF wf])
  have "?w * ?h * 3 \<le> ?w * ?h * 4" by simp
  also have "\<dots> = ?h * (4 * ?w)" by simp
  also have "\<dots> \<le> ?h * ?s" using row by (rule mult_le_mono2)
  finally have wh3: "?w * ?h * 3 < 2 ^ 32" using ext by (rule le_less_trans)
  have len0: "unat (?W * ?H * 3) = ?w * ?h * 3"
    using unat_times_width[of "?W * ?H" 3] wh wh3 by simp
  let ?Inv = "\<lambda>n rgb. length rgb = ?w * ?h * 3 \<and> packed_upto ?src ?w ?s n rgb"
  have "\<exists>packed. for_loop 0 ?h
          (\<lambda>y. for_loop 0 ?w (\<lambda>x. pack_pixel ?src ?W ?S (of_nat y) (of_nat x)))
          (map junk [0..<unat (?W * ?H * 3)]) = Some packed \<and> ?Inv (?h * ?w) packed"
  proof (rule for_loop_rule[where P = "\<lambda>k rgb. ?Inv (k * ?w) rgb"])
    show "?Inv (0 * ?w) (map junk [0..<unat (?W * ?H * 3)])"
      by (simp add: len0 packed_upto_def)
    show "0 \<le> ?h" by simp
  next
    fix k rgb
    assume k: "0 \<le> k" "k < ?h" and inv: "?Inv (k * ?w) rgb"
    have "\<exists>rgb'. for_loop 0 ?w (\<lambda>x. pack_pixel ?src ?W ?S (of_nat k) (of_nat x)) rgb = Some rgb'
            \<and> ?Inv (k * ?w + ?w) rgb'"
    proof (rule for_loop_rule[where P = "\<lambda>j rgb. ?Inv (k * ?w + j) rgb"])
      show "?Inv (k * ?w + 0) rgb" using inv by simp
      show "0 \<le> ?w" by simp
    next
      fix j t
      assume j: "0 \<le> j" "j < ?w" and invj: "?Inv (k * ?w + j) t"
      have a: "j * 4 + 2 < 4 * ?w" using j(2) by simp
      have src1: "k * ?s + j * 4 + 2 < length ?src" using f(4)[OF k(2)] a by simp
      have src2: "k * ?s + j * 4 + 2 < 2 ^ 32"
      proof -
        have "k * ?s + j * 4 + 2 < k * ?s + ?s" using a row by simp
        then show ?thesis using f(5)[OF k(2)] by (rule less_trans)
      qed
      have "Suc (k * ?w + j) \<le> Suc k * ?w" using j(2) by simp
      also have "\<dots> \<le> ?h * ?w" using k(2) by (intro mult_le_mono1) simp
      finally have pix: "Suc (k * ?w + j) \<le> ?w * ?h" by (simp add: mult.commute)
      then have "Suc (k * ?w + j) * 3 \<le> ?w * ?h * 3" by (rule mult_le_mono1)
      then have dst0: "(k * ?w + j) * 3 + 2 < ?w * ?h * 3" by simp
      have dst1: "(k * ?w + j) * 3 + 2 < length t" using dst0 invj by simp
      have dst2: "(k * ?w + j) * 3 + 2 < 2 ^ 32" using dst0 wh3 by (rule less_trans)
      have pos: "(k * ?w + j) div ?w = k" "(k * ?w + j) mod ?w = j"
        using j(2) by simp_all
      have "pack_pixel ?src ?W ?S (of_nat k) (of_nat j) t
              = Some (t[(k * ?w + j) * 3 := ?src ! (k * ?s + j * 4),
                        (k * ?w + j) * 3 + 1 := ?src ! (k * ?s + j * 4 + 1),
                        (k * ?w + j) * 3 + 2 := ?src ! (k * ?s + j * 4 + 2)])"
        by (rule pack_pixel_result[OF src1 src2 dst1 dst2])
      moreover have "packed_upto ?src ?w ?s (Suc (k * ?w + j))
              (t[(k * ?w + j) * 3 := ?src ! (k * ?s + j * 4),
                 (k * ?w + j) * 3 + 1 := ?src ! (k * ?s + j * 4 + 1),
                 (k * ?w + j) * 3 + 2 := ?src ! (k * ?s + j * 4 + 2)])"
        using invj dst1 pos by (intro packed_upto_step) simp_all
      ultimately show "\<exists>t'. pack_pixel ?src ?W ?S (of_nat k) (of_nat j) t = Some t'
              \<and> ?Inv (k * ?w + Suc j) t'"
        using invj by simp
    qed
    then show "\<exists>rgb'. for_loop 0 ?w (\<lambda>x. pack_pixel ?src ?W ?S (of_nat k) (of_nat x)) rgb = Some rgb'
            \<and> ?Inv (Suc k * ?w) rgb'"
      by (simp add: add.commute)
  qed
  then show ?thesis by (simp add: pack_rgb_def)
qed

lemma length_le_bytes [simp]: "length (le_bytes k v) = k"
  by (induction k arbitrary: v) simp_all

lemma le_value_le_bytes: "le_value (le_bytes k v) = v mod 256 ^ k"
proof (induction k arbitrary: v)
  case 0
  then show ?case by simp
next
  case (Suc k)
  have b: "unat (of_nat (v mod 256) :: u8) = v mod 256"
    by (simp add: unat_of_nat)
  have "le_value (le_bytes (Suc k) v) = v mod 256 + 256 * ((v div 256) mod 256 ^ k)"
    using Suc[of "v div 256"] b by simp
  also have "\<dots> = v mod (256 * 256 ^ k)"
    by (simp add: mod_mult2_eq)
  finally show ?case by simp
qed

lemma unat_size_bound: "unat (v :: size_t) < 2 ^ 64"
  using unsigned_less[of v, where 'a = nat] by simp

lemma native_bytes_length [simp]: "length (native_bytes be v) = 8"
  by (simp add: native_bytes_def)

lemma native_value_bytes: "native_value be (native_bytes be v) = unat v"
proof -
  have "le_value (le_bytes 8 (unat v)) = unat v mod 256 ^ 8"
    by (rule le_value_le_bytes)
  moreover have "unat v < 256 ^ 8" using unat_size_bound[of v] by simp
  ultimately show ?thesis by (simp add: native_value_def native_bytes_def)
qed

lemma jpeg_size_length:
  "length (take (unat (of_nat (length d) :: size_t)) d) = unat (of_nat (length d) :: size_t)"
proof -
  have "unat (of_nat (length d) :: size_t) \<le> length d"
    by (simp add: unat_of_nat)
  then show ?thesis by simp
qed

lemma jpeg_size_exact:
  "length d < 2 ^ 64 \<Longrightarrow> take (unat (of_nat (length d) :: size_t)) d = d"
  by (simp add: unat_of_nat)

lemma callback_stream_stage:
  assumes "processCameraData e b g = Some g'"
  shows "\<exists>ga gb. encode_and_stream e b ga = Some gb \<and> sock_sent ga = sock_sent g
           \<and> sock_sent g' = sock_sent gb"
proof -
  from assms obtain g1 g2 g3 s where
    s: "store_frame (frame_calls e) b g = Some g1"
       "publish_latest (latest_calls e) b g1 = Some g2"
       "encode_and_stream e b (update_latest_name (name_calls e) (update_metadata b g2)) = Some g3"
       "g' = g3\<lparr>console := Some s\<rparr>"
    by (auto simp: processCameraData_def split: option.splits)
  have "sock_sent (update_latest_name (name_calls e) (update_metadata b g2)) = sock_sent g"
    using store_frame_keeps[OF s(1)] publish_latest_keeps[OF s(2)]
    by (simp add: update_latest_name_keeps update_metadata_keeps)
  then show ?thesis using s(3,4) by auto
qed

lemma encode_and_stream_cases:
  assumes "encode_and_stream e b g = Some g'"
  shows "g' = g
       \<or> (stream_gate b \<and> malloc_ok e
          \<and> (\<exists>rgb_data jpeg_data.
                pack_rgb (heap_junk e) (framebuf b) (fd_width (framedesc b))
                  (fd_height (framedesc b)) (fd_stride (framedesc b)) = Some rgb_data
                \<and> jpeg_codec e rgb_data (fd_width (framedesc b)) (fd_height (framedesc b))
                    = Some jpeg_data
                \<and> g' = g\<lparr>sock_sent := sock_sent g @
                           [native_bytes (big_endian e) (of_nat (length jpeg_data)),
                            take (unat (of_nat (length jpeg_data) :: size_t)) jpeg_data]\<rparr>))"
proof (cases "stream_gate b \<and> malloc_ok e")
  case False
  then have "encode_and_stream e b g = Some g"
    by (auto simp: encode_and_stream_def split: prod.splits)
  then show ?thesis using assms by simp
next
  case True
  then have t: "frametype b = CAMERA_FRAMETYPE_RGB8888"
    by (simp add: stream_gate_def split: prod.splits)
  then have dims: "frame_dims b = (fd_width (framedesc b), fd_height (framedesc b), fd_stride (framedesc b))"
    by (simp add: frame_dims_def)
  show ?thesis using assms True
    by (auto simp: encode_and_stream_def dims Let_def split: option.splits)
qed

lemma sent_payload:
  fixes d :: "u8 list"
  defines "p \<equiv> take (unat (of_nat (length d) :: size_t)) d"
  shows "native_bytes be (of_nat (length d)) = length_prefix be p" and "length p < 2 ^ 64"
    and "native_value be (length_prefix be p) = length p"
proof -
  have l: "length p = unat (of_nat (length d) :: size_t)"
    unfolding p_def by (rule jpeg_size_length)
  then have "(of_nat (length p) :: size_t) = of_nat (length d)" by simp
  then show "native_bytes be (of_nat (length d)) = length_prefix be p"
    by (simp add: length_prefix_def)
  show "length p < 2 ^ 64" unfolding l by (rule unat_size_bound)
  then show "native_value be (length_prefix be p) = length p"
    by (simp add: length_prefix_def native_value_bytes unat_of_nat)
qed

lemma callback_sends:
  assumes "processCameraData e b g = Some g'"
  shows "sock_sent g' = sock_sent g
       \<or> (stream_gate b \<and> malloc_ok e
          \<and> (\<exists>rgb_data jpeg_data.
                pack_rgb (heap_junk e) (framebuf b) (fd_width (framedesc b))
                  (fd_height (framedesc b)) (fd_stride (framedesc b)) = Some rgb_data
                \<and> jpeg_codec e rgb_data (fd_width (framedesc b)) (fd_height (framedesc b))
                    = Some jpeg_data
                \<and> sock_sent g' = sock_sent g @
                     [native_bytes (big_endian e) (of_nat (length jpeg_data)),
                      take (unat (of_nat (length jpeg_data) :: size_t)) jpeg_data]))"
proof -
  from callback_stream_stage[OF assms] obtain ga gb where
    s: "encode_and_stream e b ga = Some gb" "sock_sent ga = sock_sent g" "sock_sent g' = sock_sent gb"
    by blast
  from encode_and_stream_cases[OF s(1)] show ?thesis
  proof
    assume "gb = ga"
    then show ?thesis using s by simp
  next
    assume "stream_gate b \<and> malloc_ok e
          \<and> (\<exists>rgb_data jpeg_data.
                pack_rgb (heap_junk e) (framebuf b) (fd_width (framedesc b))
                  (fd_height (framedesc b)) (fd_stride (framedesc b)) = Some rgb_data
                \<and> jpeg_codec e rgb_data (fd_width (framedesc b)) (fd_height (framedesc b))
                    = Some jpeg_data
                \<and> gb = ga\<lparr>sock_sent := sock_sent ga @
                           [native_bytes (big_endian e) (of_nat (length jpeg_data)),
                            take (unat (of_nat (length jpeg_data) :: size_t)) jpeg_data]\<rparr>)"
    then show ?thesis using s(2,3) by auto
  qed
qed

lemma read_one_frame:
  assumes "length p < 2 ^ 64"
  shows "read_frames (Suc fuel) be (length_prefix be p @ p @ rest)
           = map_option ((#) p) (read_frames fuel be rest)"
proof -
  have l: "length (length_prefix be p) = 8" by (simp add: length_prefix_def)
  have v: "native_value be (length_prefix be p) = length p"
    using assms by (simp add: length_prefix_def native_value_bytes unat_of_nat)
  have ne: "length_prefix be p \<noteq> []" using l by auto
  have t: "take 8 (length_prefix be p @ p @ rest) = length_prefix be p"
          "drop 8 (length_prefix be p @ p @ rest) = p @ rest"
    using l by simp_all
  show ?thesis
    using ne l by (simp add: t v Let_def split: option.splits)
qed

lemma read_all_frames:
  assumes "\<And>p. p \<in> set frames \<Longrightarrow> length p < 2 ^ 64" and "length frames \<le> fuel"
  shows "read_frames fuel be (concat (map (\<lambda>p. length_prefix be p @ p) frames)) = Some frames"
  using assms
proof (induction frames arbitrary: fuel)
  case Nil
  then show ?case by (cases fuel) simp_all
next
  case (Cons p frames)
  then obtain f where f: "fuel = Suc f" by (cases fuel) simp_all
  have "read_frames f be (concat (map (\<lambda>p. length_prefix be p @ p) frames)) = Some frames"
    using Cons f by simp
  moreover have "length p < 2 ^ 64" using Cons.prems(1) by simp
  ultimately show ?case
    using read_one_frame[of p f be "concat (map (\<lambda>p. length_prefix be p @ p) frames)"] f
    by simp
qed

lemma run_callbacks_sends:
  assumes "run_callbacks fs g = Some g'" and "\<And>e b. (e, b) \<in> set fs \<Longrightarrow> big_endian e = be"
  shows "\<exists>frames. sock_sent g' = sock_sent g @ concat (map (\<lambda>p. [length_prefix be p, p]) frames)
           \<and> length frames \<le> length fs \<and> (\<forall>p \<in> set frames. length p < 2 ^ 64)"
  using assms
proof (induction fs arbitrary: g)
  case Nil
  then show ?case by simp
next
  case (Cons f fs)
  obtain e b where f: "f = (e, b)" by (cases f)
  from Cons.prems(1) f obtain g1 where
    g1: "processCameraData e b g = Some g1" "run_callbacks fs g1 = Some g'"
    by (auto split: option.splits)
  have be: "big_endian e = be" using Cons.prems(2)[of e b] f by simp
  from Cons.IH[OF g1(2)] Cons.prems(2) obtain frames where
    fr: "sock_sent g' = sock_sent g1 @ concat (map (\<lambda>p. [length_prefix be p, p]) frames)"
        "length frames \<le> length fs" "\<forall>p \<in> set frames. length p < 2 ^ 64"
    by auto
  from callback_sends[OF g1(1)] show ?case
  proof
    assume "sock_sent g1 = sock_sent g"
    then show ?thesis using fr by (intro exI[of _ frames]) simp
  next
    assume "stream_gate b \<and> malloc_ok e
          \<and> (\<exists>rgb_data jpeg_data.
                pack_rgb (heap_junk e) (framebuf b) (fd_width (framedesc b))
                  (fd_height (framedesc b)) (fd_stride (framedesc b)) = Some rgb_data
                \<and> jpeg_codec e rgb_data (fd_width (framedesc b)) (fd_height (framedesc b))
                    = Some jpeg_data
                \<and> sock_sent g1 = sock_sent g @
                     [native_bytes (big_endian e) (of_nat (length jpeg_data)),
                      take (unat (of_nat (length jpeg_data) :: size_t)) jpeg_data])"
    then obtain d where
      d: "sock_sent g1 = sock_sent g @
                     [native_bytes be (of_nat (length d)),
                      take (unat (of_nat (length d) :: size_t)) d]"
      using be by auto
    let ?p = "take (unat (of_nat (length d) :: size_t)) d"
    have "sock_sent g1 = sock_sent g @ [length_prefix be ?p, ?p]"
      using d sent_payload(1)[where be = be and d = d] by simp
    moreover have "length ?p < 2 ^ 64" by (rule sent_payload(2))
    ultimately show ?thesis using fr
      by (intro exI[of _ "?p # frames"]) simp
  qed
qed

lemma concat_pairs:
  "concat (concat (map (\<lambda>p. [f p, p]) frames)) = concat (map (\<lambda>p. f p @ p) frames)"
  by (induction frames) simp_all

subsection \<open>C9: stream framing\<close>

text \<open>
  C9: a callback that writes to the socket at all makes exactly two \<^verbatim>\<open>send\<close> calls, in this
  order: the 8 bytes of \<^verbatim>\<open>jpeg_size\<close> in the machine's byte order, then \<^verbatim>\<open>jpeg_size\<close> bytes of
  the codec's output (all of it, its size being what an \<^verbatim>\<open>unsigned long\<close> holds); a reader of
  the same byte order finds in the prefix the length of the payload. Nothing else is ever
  written, so over any run of callbacks that starts with nothing sent, the bytes written
  are a sequence of frames, each one prefix followed by its payload, and a receiver that
  reads a prefix and then that many bytes recovers the payloads in order. The model records
  what is handed to \<^verbatim>\<open>send\<close>; how much of it the transport accepts is not the program's.
\<close>

theorem stream_framing:
  "(processCameraData e b g = Some g' \<and> sock_sent g' \<noteq> sock_sent g \<longrightarrow>
      (\<exists>rgb_data jpeg_data payload.
          jpeg_codec e rgb_data (fd_width (framedesc b)) (fd_height (framedesc b)) = Some jpeg_data
        \<and> payload = take (unat (of_nat (length jpeg_data) :: size_t)) jpeg_data
        \<and> (length jpeg_data < 2 ^ 64 \<longrightarrow> payload = jpeg_data)
        \<and> sock_sent g' = sock_sent g @ [length_prefix (big_endian e) payload, payload]
        \<and> length (length_prefix (big_endian e) payload) = 8
        \<and> native_value (big_endian e) (length_prefix (big_endian e) payload) = length payload))
   \<and> (run_callbacks fs g = Some g'' \<and> sock_sent g = [] \<and> (\<forall>(e, b) \<in> set fs. big_endian e = be) \<longrightarrow>
      (\<exists>frames. sock_sent g'' = concat (map (\<lambda>p. [length_prefix be p, p]) frames)
          \<and> read_frames (length fs) be (concat (sock_sent g'')) = Some frames))"
proof (intro conjI impI)
  assume a: "processCameraData e b g = Some g' \<and> sock_sent g' \<noteq> sock_sent g"
  with callback_sends[of e b g g'] obtain rgb_data jpeg_data where
    d: "jpeg_codec e rgb_data (fd_width (framedesc b)) (fd_height (framedesc b)) = Some jpeg_data"
       "sock_sent g' = sock_sent g @
                     [native_bytes (big_endian e) (of_nat (length jpeg_data)),
                      take (unat (of_nat (length jpeg_data) :: size_t)) jpeg_data]"
    by auto
  let ?p = "take (unat (of_nat (length jpeg_data) :: size_t)) jpeg_data"
  note sp1 = sent_payload(1)[where be = "big_endian e" and d = jpeg_data]
  note sp3 = sent_payload(3)[where be = "big_endian e" and d = jpeg_data]
  have "sock_sent g' = sock_sent g @ [length_prefix (big_endian e) ?p, ?p]"
    using d(2) sp1 by simp
  moreover have "length (length_prefix (big_endian e) ?p) = 8"
    by (simp add: length_prefix_def)
  moreover have "length jpeg_data < 2 ^ 64 \<longrightarrow> ?p = jpeg_data"
    using jpeg_size_exact[of jpeg_data] by simp
  ultimately show "\<exists>rgb_data jpeg_data payload.
          jpeg_codec e rgb_data (fd_width (framedesc b)) (fd_height (framedesc b)) = Some jpeg_data
        \<and> payload = take (unat (of_nat (length jpeg_data) :: size_t)) jpeg_data
        \<and> (length jpeg_data < 2 ^ 64 \<longrightarrow> payload = jpeg_data)
        \<and> sock_sent g' = sock_sent g @ [length_prefix (big_endian e) payload, payload]
        \<and> length (length_prefix (big_endian e) payload) = 8
        \<and> native_value (big_endian e) (length_prefix (big_endian e) payload) = length payload"
    using d(1) sp3 by blast
next
  assume a: "run_callbacks fs g = Some g'' \<and> sock_sent g = [] \<and> (\<forall>(e, b) \<in> set fs. big_endian e = be)"
  then have run: "run_callbacks fs g = Some g''" and empty: "sock_sent g = []"
    and be: "\<And>e b. (e, b) \<in> set fs \<Longrightarrow> big_endian e = be"
    by auto
  have "\<exists>frames. sock_sent g'' = sock_sent g @ concat (map (\<lambda>p. [length_prefix be p, p]) frames)
           \<and> length frames \<le> length fs \<and> (\<forall>p \<in> set frames. length p < 2 ^ 64)"
  proof (rule run_callbacks_sends[OF run])
    show "big_endian e = be" if "(e, b) \<in> set fs" for e b
      using that by (rule be)
  qed
  then obtain frames where
    fr: "sock_sent g'' = concat (map (\<lambda>p. [length_prefix be p, p]) frames)"
        "length frames \<le> length fs" "\<forall>p \<in> set frames. length p < 2 ^ 64"
    using empty by auto
  have "read_frames (length fs) be (concat (sock_sent g'')) = Some frames"
    unfolding fr(1) concat_pairs using fr(2,3) by (intro read_all_frames) simp_all
  then show "\<exists>frames. sock_sent g'' = concat (map (\<lambda>p. [length_prefix be p, p]) frames)
          \<and> read_frames (length fs) be (concat (sock_sent g'')) = Some frames"
    using fr(1) by blast
qed

theorem stream_framing_witness:
  "(\<exists>g'. processCameraData env_ok (example_frame CAMERA_FRAMETYPE_RGB8888) initial_globals = Some g'
      \<and> sock_sent g' \<noteq> sock_sent initial_globals
      \<and> sock_sent g' = [[6, 0, 0, 0, 0, 0, 0, 0], [10, 20, 30, 40, 50, 60]]
      \<and> (\<exists>payload. sock_sent g' = sock_sent initial_globals @ [length_prefix False payload, payload]
             \<and> native_value False (length_prefix False payload) = length payload))
   \<and> (\<exists>g''. run_callbacks
               [(env_ok, example_frame CAMERA_FRAMETYPE_RGB8888),
                (env_ok, example_frame CAMERA_FRAMETYPE_BGR8888),
                (env_ok, sample_frame 7)] initial_globals = Some g''
        \<and> read_frames 3 False (concat (sock_sent g''))
            = Some [[10, 20, 30, 40, 50, 60], [7, 7, 7]])"
proof -
  let ?fs = "[(env_ok, example_frame CAMERA_FRAMETYPE_RGB8888),
              (env_ok, example_frame CAMERA_FRAMETYPE_BGR8888),
              (env_ok, sample_frame 7)]"
  have "processCameraData env_ok (example_frame CAMERA_FRAMETYPE_RGB8888) initial_globals \<noteq> None"
    by code_simp
  then obtain g' where g': "processCameraData env_ok (example_frame CAMERA_FRAMETYPE_RGB8888) initial_globals = Some g'"
    by blast
  have "map_option sock_sent (processCameraData env_ok (example_frame CAMERA_FRAMETYPE_RGB8888) initial_globals)
          = Some [[6, 0, 0, 0, 0, 0, 0, 0], [10, 20, 30, 40, 50, 60]]"
    by code_simp
  then have s: "sock_sent g' = [[6, 0, 0, 0, 0, 0, 0, 0], [10, 20, 30, 40, 50, 60]]"
    using g' by simp
  have i: "sock_sent initial_globals = []" by (simp add: initial_globals_def)
  have be: "big_endian env_ok = False" by (simp add: env_ok_def)
  have ne: "sock_sent g' \<noteq> sock_sent initial_globals" using s i by simp
  note t = stream_framing[where e = env_ok and b = "example_frame CAMERA_FRAMETYPE_RGB8888"
      and g = initial_globals and g' = g' and fs = ?fs and be = False]
  from t g' ne have one: "\<exists>payload. sock_sent g' = sock_sent initial_globals @ [length_prefix False payload, payload]
             \<and> native_value False (length_prefix False payload) = length payload"
    unfolding be by blast
  have "run_callbacks ?fs initial_globals \<noteq> None" by code_simp
  then obtain g'' where g'': "run_callbacks ?fs initial_globals = Some g''" by blast
  have "map_option sock_sent (run_callbacks ?fs initial_globals)
          = Some [[6, 0, 0, 0, 0, 0, 0, 0], [10, 20, 30, 40, 50, 60], [3, 0, 0, 0, 0, 0, 0, 0], [7, 7, 7]]"
    by code_simp
  then have s2: "sock_sent g'' = [[6, 0, 0, 0, 0, 0, 0, 0], [10, 20, 30, 40, 50, 60], [3, 0, 0, 0, 0, 0, 0, 0], [7, 7, 7]]"
    using g'' by simp
  have "read_frames 3 False (concat (sock_sent g'')) = Some [[10, 20, 30, 40, 50, 60], [7, 7, 7]]"
    unfolding s2 by code_simp
  with g' ne s one g'' show ?thesis by blast
qed

lemma stream_gate_iff:
  "stream_gate b \<longleftrightarrow>
     frametype b = CAMERA_FRAMETYPE_RGB8888
     \<and> fd_width (framedesc b) \<noteq> 0 \<and> fd_height (framedesc b) \<noteq> 0"
  by (cases "frametype b") (simp_all add: stream_gate_def frame_dims_def word_greater_zero_iff)

lemma packed_upto_pixels:
  assumes "packed_upto src w s (h * w) rgb" and "y < h" and "x < w" and "c < 3"
  shows "rgb ! ((y * w + x) * 3 + c) = src ! (y * s + x * 4 + c)"
proof -
  have "Suc y * w \<le> h * w" using assms(2) by (intro mult_le_mono1) simp
  then have lt: "y * w + x < h * w" using assms(3) by simp
  have "\<forall>c<3. rgb ! ((y * w + x) * 3 + c)
               = src ! (((y * w + x) div w) * s + ((y * w + x) mod w) * 4 + c)"
    using assms(1) lt unfolding packed_upto_def by blast
  then have "rgb ! ((y * w + x) * 3 + c)
               = src ! (((y * w + x) div w) * s + ((y * w + x) mod w) * 4 + c)"
    using assms(4) by blast
  moreover have "(y * w + x) div w = y" "(y * w + x) mod w = x" using assms(3) by simp_all
  ultimately show ?thesis by (simp only:)
qed

subsection \<open>C10: the streaming gate\<close>

text \<open>
  C10: the condition under which a frame is packed, encoded and sent is that its tag is
  RGB8888 and its width and height are not zero. When it does not hold the stage changes
  nothing, and the callback writes nothing to the socket; a BGR8888 frame never meets it.
  When it holds, the allocation succeeds and the frame is what its descriptor says, the
  packing loops return a buffer of width times height times 3 bytes with
  \<open>packed ! ((y * width + x) * 3 + c) = framebuf ! (y * stride + x * 4 + c)\<close> for every row,
  column and channel, that buffer is what the codec is given, and the two writes follow
  exactly when the codec returns data.
\<close>

theorem streaming_gate:
  "(stream_gate b \<longleftrightarrow>
      frametype b = CAMERA_FRAMETYPE_RGB8888
      \<and> fd_width (framedesc b) \<noteq> 0 \<and> fd_height (framedesc b) \<noteq> 0)
   \<and> (\<not> stream_gate b \<longrightarrow> encode_and_stream e b g = Some g)
   \<and> (\<not> stream_gate b \<and> processCameraData e b g = Some g' \<longrightarrow> sock_sent g' = sock_sent g)
   \<and> (frametype b = CAMERA_FRAMETYPE_BGR8888 \<longrightarrow> \<not> stream_gate b)
   \<and> (stream_gate b \<and> malloc_ok e \<and> well_formed 4 b \<longrightarrow>
        (\<exists>packed.
           pack_rgb (heap_junk e) (framebuf b) (fd_width (framedesc b)) (fd_height (framedesc b))
             (fd_stride (framedesc b)) = Some packed
           \<and> length packed
               = unat (fd_width (framedesc b)) * unat (fd_height (framedesc b)) * 3
           \<and> (\<forall>y<unat (fd_height (framedesc b)). \<forall>x<unat (fd_width (framedesc b)). \<forall>c<3.
                 packed ! ((y * unat (fd_width (framedesc b)) + x) * 3 + c)
                   = framebuf b ! (y * unat (fd_stride (framedesc b)) + x * 4 + c))
           \<and> encode_and_stream e b g
               = Some (case jpeg_codec e packed (fd_width (framedesc b)) (fd_height (framedesc b)) of
                         None \<Rightarrow> g
                       | Some jpeg_data \<Rightarrow>
                           g\<lparr>sock_sent := sock_sent g @
                               [native_bytes (big_endian e) (of_nat (length jpeg_data)),
                                take (unat (of_nat (length jpeg_data) :: size_t)) jpeg_data]\<rparr>)))"
proof (intro conjI impI)
  show "stream_gate b \<longleftrightarrow>
      frametype b = CAMERA_FRAMETYPE_RGB8888
      \<and> fd_width (framedesc b) \<noteq> 0 \<and> fd_height (framedesc b) \<noteq> 0"
    by (rule stream_gate_iff)
next
  assume "\<not> stream_gate b"
  then show "encode_and_stream e b g = Some g" by (rule encode_and_stream_closed)
next
  assume a: "\<not> stream_gate b \<and> processCameraData e b g = Some g'"
  then show "sock_sent g' = sock_sent g"
    using callback_sends[of e b g g'] by auto
next
  assume "frametype b = CAMERA_FRAMETYPE_BGR8888"
  then show "\<not> stream_gate b" by (simp add: stream_gate_iff)
next
  assume a: "stream_gate b \<and> malloc_ok e \<and> well_formed 4 b"
  then have gate: "stream_gate b" and m: "malloc_ok e" and wf: "well_formed 4 b" by simp_all
  have t: "frametype b = CAMERA_FRAMETYPE_RGB8888" using gate by (simp add: stream_gate_iff)
  then have dims: "frame_dims b = (fd_width (framedesc b), fd_height (framedesc b), fd_stride (framedesc b))"
    by (simp add: frame_dims_def)
  from pack_rgb_correct[OF wf, of "heap_junk e"] obtain packed where
    p: "pack_rgb (heap_junk e) (framebuf b) (fd_width (framedesc b)) (fd_height (framedesc b))
             (fd_stride (framedesc b)) = Some packed"
       "length packed = unat (fd_width (framedesc b)) * unat (fd_height (framedesc b)) * 3"
       "packed_upto (framebuf b) (unat (fd_width (framedesc b))) (unat (fd_stride (framedesc b)))
          (unat (fd_height (framedesc b)) * unat (fd_width (framedesc b))) packed"
    by blast
  have px: "\<forall>y<unat (fd_height (framedesc b)). \<forall>x<unat (fd_width (framedesc b)). \<forall>c<3.
                 packed ! ((y * unat (fd_width (framedesc b)) + x) * 3 + c)
                   = framebuf b ! (y * unat (fd_stride (framedesc b)) + x * 4 + c)"
    using packed_upto_pixels[OF p(3)] by blast
  have run: "encode_and_stream e b g
               = Some (case jpeg_codec e packed (fd_width (framedesc b)) (fd_height (framedesc b)) of
                         None \<Rightarrow> g
                       | Some jpeg_data \<Rightarrow>
                           g\<lparr>sock_sent := sock_sent g @
                               [native_bytes (big_endian e) (of_nat (length jpeg_data)),
                                take (unat (of_nat (length jpeg_data) :: size_t)) jpeg_data]\<rparr>)"
    using gate m p(1) by (simp add: encode_and_stream_def dims Let_def split: option.splits)
  show "\<exists>packed.
           pack_rgb (heap_junk e) (framebuf b) (fd_width (framedesc b)) (fd_height (framedesc b))
             (fd_stride (framedesc b)) = Some packed
           \<and> length packed
               = unat (fd_width (framedesc b)) * unat (fd_height (framedesc b)) * 3
           \<and> (\<forall>y<unat (fd_height (framedesc b)). \<forall>x<unat (fd_width (framedesc b)). \<forall>c<3.
                 packed ! ((y * unat (fd_width (framedesc b)) + x) * 3 + c)
                   = framebuf b ! (y * unat (fd_stride (framedesc b)) + x * 4 + c))
           \<and> encode_and_stream e b g
               = Some (case jpeg_codec e packed (fd_width (framedesc b)) (fd_height (framedesc b)) of
                         None \<Rightarrow> g
                       | Some jpeg_data \<Rightarrow>
                           g\<lparr>sock_sent := sock_sent g @
                               [native_bytes (big_endian e) (of_nat (length jpeg_data)),
                                take (unat (of_nat (length jpeg_data) :: size_t)) jpeg_data]\<rparr>)"
    using p(1,2) px run by blast
qed

theorem streaming_gate_witness:
  "stream_gate (padded_frame CAMERA_FRAMETYPE_RGB8888) \<and> malloc_ok env_ok
   \<and> well_formed 4 (padded_frame CAMERA_FRAMETYPE_RGB8888)
   \<and> pack_rgb (heap_junk env_ok) (framebuf (padded_frame CAMERA_FRAMETYPE_RGB8888)) 2 2 12
       = Some [1, 2, 3, 5, 6, 7, 11, 12, 13, 15, 16, 17]
   \<and> map_option sock_sent (encode_and_stream env_ok (padded_frame CAMERA_FRAMETYPE_RGB8888) initial_globals)
       = Some [[12, 0, 0, 0, 0, 0, 0, 0], [1, 2, 3, 5, 6, 7, 11, 12, 13, 15, 16, 17]]
   \<and> frametype (padded_frame CAMERA_FRAMETYPE_BGR8888) = CAMERA_FRAMETYPE_BGR8888
   \<and> \<not> stream_gate (padded_frame CAMERA_FRAMETYPE_BGR8888)
   \<and> (\<exists>g'. processCameraData env_ok (padded_frame CAMERA_FRAMETYPE_BGR8888) initial_globals = Some g'
         \<and> sock_sent g' = sock_sent initial_globals)"
proof -
  let ?r = "padded_frame CAMERA_FRAMETYPE_RGB8888" and ?b = "padded_frame CAMERA_FRAMETYPE_BGR8888"
  have gate: "stream_gate ?r" by code_simp
  have m: "malloc_ok env_ok" by (simp add: env_ok_def)
  have wf: "well_formed 4 ?r" by (simp add: well_formed_def padded_frame_def)
  have w: "fd_width (framedesc ?r) = 2" "fd_height (framedesc ?r) = 2" "fd_stride (framedesc ?r) = 12"
    by (simp_all add: padded_frame_def)
  have pk: "pack_rgb (heap_junk env_ok) (framebuf ?r) 2 2 12
              = Some [1, 2, 3, 5, 6, 7, 11, 12, 13, 15, 16, 17]"
    by code_simp
  have tb: "frametype ?b = CAMERA_FRAMETYPE_BGR8888" by (simp add: padded_frame_def)
  note t = streaming_gate[where b = ?r and e = env_ok and g = initial_globals]
  from t gate m wf obtain packed where
    p: "pack_rgb (heap_junk env_ok) (framebuf ?r) (fd_width (framedesc ?r)) (fd_height (framedesc ?r))
             (fd_stride (framedesc ?r)) = Some packed"
       "encode_and_stream env_ok ?r initial_globals
               = Some (case jpeg_codec env_ok packed (fd_width (framedesc ?r)) (fd_height (framedesc ?r)) of
                         None \<Rightarrow> initial_globals
                       | Some jpeg_data \<Rightarrow>
                           initial_globals\<lparr>sock_sent := sock_sent initial_globals @
                               [native_bytes (big_endian env_ok) (of_nat (length jpeg_data)),
                                take (unat (of_nat (length jpeg_data) :: size_t)) jpeg_data]\<rparr>)"
    by blast
  have "packed = [1, 2, 3, 5, 6, 7, 11, 12, 13, 15, 16, 17]" using p(1) pk by (simp add: w)
  then have "jpeg_codec env_ok packed (fd_width (framedesc ?r)) (fd_height (framedesc ?r))
               = Some [1, 2, 3, 5, 6, 7, 11, 12, 13, 15, 16, 17]"
    by (simp add: env_ok_def)
  then have "encode_and_stream env_ok ?r initial_globals
               = Some (initial_globals\<lparr>sock_sent := sock_sent initial_globals @
                               [native_bytes (big_endian env_ok) (of_nat (length [1, 2, 3, 5, 6, 7, 11, 12, 13, 15, 16, 17 :: u8])),
                                take (unat (of_nat (length [1, 2, 3, 5, 6, 7, 11, 12, 13, 15, 16, 17 :: u8]) :: size_t))
                                  [1, 2, 3, 5, 6, 7, 11, 12, 13, 15, 16, 17]]\<rparr>)"
    using p(2) by simp
  moreover have "native_bytes (big_endian env_ok) (of_nat (length [1, 2, 3, 5, 6, 7, 11, 12, 13, 15, 16, 17 :: u8]))
                   = [12, 0, 0, 0, 0, 0, 0, 0]"
    by code_simp
  moreover have "sock_sent initial_globals = []" by (simp add: initial_globals_def)
  ultimately have sent: "map_option sock_sent (encode_and_stream env_ok ?r initial_globals)
       = Some [[12, 0, 0, 0, 0, 0, 0, 0], [1, 2, 3, 5, 6, 7, 11, 12, 13, 15, 16, 17]]"
    by simp
  note tb' = streaming_gate[where b = ?b and e = env_ok and g = initial_globals]
  have ng: "\<not> stream_gate ?b" using tb' tb by blast
  have "processCameraData env_ok ?b initial_globals \<noteq> None" by code_simp
  then obtain g' where g': "processCameraData env_ok ?b initial_globals = Some g'" by blast
  have "sock_sent g' = sock_sent initial_globals"
    using streaming_gate[where b = ?b and e = env_ok and g = initial_globals and g' = g'] ng g'
    by blast
  with gate m wf pk sent tb ng g' show ?thesis by blast
qed

section \<open>The ring read through its mappings\<close>

subsection \<open>C3: ring bound and first-in first-out eviction\<close>


subsection \<open>C7: the latest frame\<close>

text \<open>
  C7 says that \<open>get_latest_frame\<close> returns nothing for an empty ring and otherwise the slot
  \<open>(head + count - 1) mod MAX_FRAMES\<close>, which holds the content of the frame pushed last.
  The index is as stated; the content is not, for the reason given under C3.

  In the run \<open>four_callbacks\<close> the opening of the latest segment fails in the second
  callback, the third frame is stored in slot 2 with its mapping at page 32, and the push
  of the fourth frame fails, so that frame 3 is the frame pushed last. Afterwards
  \<open>get_latest_frame\<close> returns slot 2, whose record and segment are those of frame 3; read
  through \<open>mapped_data\<close> it gives the bytes of frame 4, which the latest mapping at page 32
  holds. In the run \<open>three_callbacks\<close> every frame is stored and the opening of the latest
  segment fails twice: slot 2 is returned, and its page is not mapped at all.
\<close>

theorem latest_slot_reads_other_frame:
  "map (\<lambda>(e, b). framebuf b) four_callbacks
     = [[1, 1, 1, 255], [2, 2, 2, 255], [3, 3, 3, 255], [4, 4, 4, 255]]
   \<and> map (\<lambda>k. map_option (\<lambda>g. (buffer_head g, buffer_count g))
                 (run_callbacks (take k four_callbacks) initial_globals)) [1, 2, 3, 4]
     = [Some (0, 1), Some (0, 2), Some (0, 3), Some (0, 3)]
   \<and> map_option get_latest_frame (run_callbacks four_callbacks initial_globals) = Some (Some 2)
   \<and> map_option (\<lambda>g. shm_name (frame_buffer g ! 2)) (run_callbacks four_callbacks initial_globals)
     = Some (Some ''/camera_frame_2'')
   \<and> map_option (\<lambda>g. shm g ''/camera_frame_2'') (run_callbacks four_callbacks initial_globals)
     = Some (Some [3, 3, 3, 255])
   \<and> map_option (\<lambda>g. (mapped_data (frame_buffer g ! 2), latest_mapped g))
        (run_callbacks four_callbacks initial_globals) = Some (MapAddr 32, MapAddr 32)
   \<and> map_option (\<lambda>g. frame_bytes g (frame_buffer g ! 2))
        (run_callbacks four_callbacks initial_globals) = Some (Some [4, 4, 4, 255])
   \<and> map (\<lambda>k. map_option (\<lambda>g. (buffer_head g, buffer_count g))
                 (run_callbacks (take k three_callbacks) initial_globals)) [1, 2, 3]
     = [Some (0, 1), Some (0, 2), Some (0, 3)]
   \<and> map_option get_latest_frame (run_callbacks three_callbacks initial_globals) = Some (Some 2)
   \<and> map_option (\<lambda>g. frame_bytes g (frame_buffer g ! 2))
        (run_callbacks three_callbacks initial_globals) = Some None"
proof -
  have frames: "map (\<lambda>(e, b). framebuf b) four_callbacks
     = [[1, 1, 1, 255], [2, 2, 2, 255], [3, 3, 3, 255], [4, 4, 4, 255]]"
    by code_simp
  have counts4: "map (\<lambda>k. map_option (\<lambda>g. (buffer_head g, buffer_count g))
                 (run_callbacks (take k four_callbacks) initial_globals)) [1, 2, 3, 4]
     = [Some (0, 1), Some (0, 2), Some (0, 3), Some (0, 3)]"
    by code_simp
  have counts3: "map (\<lambda>k. map_option (\<lambda>g. (buffer_head g, buffer_count g))
                 (run_callbacks (take k three_callbacks) initial_globals)) [1, 2, 3]
     = [Some (0, 1), Some (0, 2), Some (0, 3)]"
    by code_simp
  have "map_option (\<lambda>g. (get_latest_frame g, shm_name (frame_buffer g ! 2),
                     shm g ''/camera_frame_2'', mapped_data (frame_buffer g ! 2),
                     latest_mapped g, frame_bytes g (frame_buffer g ! 2)))
          (run_callbacks four_callbacks initial_globals)
        = Some (Some 2, Some ''/camera_frame_2'', Some [3, 3, 3, 255], MapAddr 32, MapAddr 32,
                Some [4, 4, 4, 255])"
    by code_simp
  then obtain g where g: "run_callbacks four_callbacks initial_globals = Some g"
    "get_latest_frame g = Some 2" "shm_name (frame_buffer g ! 2) = Some ''/camera_frame_2''"
    "shm g ''/camera_frame_2'' = Some [3, 3, 3, 255]"
    "mapped_data (frame_buffer g ! 2) = MapAddr 32" "latest_mapped g = MapAddr 32"
    "frame_bytes g (frame_buffer g ! 2) = Some [4, 4, 4, 255]"
    by (cases "run_callbacks four_callbacks initial_globals") simp_all
  have "map_option (\<lambda>g. (get_latest_frame g, frame_bytes g (frame_buffer g ! 2)))
          (run_callbacks three_callbacks initial_globals) = Some (Some 2, None)"
    by code_simp
  then obtain h where h: "run_callbacks three_callbacks initial_globals = Some h"
    "get_latest_frame h = Some 2" "frame_bytes h (frame_buffer h ! 2) = None"
    by (cases "run_callbacks three_callbacks initial_globals") simp_all
  show ?thesis
    unfolding g(1) h(1) option.map using frames counts4 counts3 g(2-7) h(2,3) by simp
qed

end
